theory Spec2Isabelle
  imports Main "HOL-Library.Monad_Syntax"
begin

section \<open>Intrusive doubly linked list (intrusive\_list.h)\<close>

text \<open>
  A \<open>list_element\<close> of one tag is a pair of pointers \<open>next\<close>, \<open>prev\<close>.  The
  memory of all elements of one tag is a pair of functions from addresses to nullable
  pointers (\<open>None\<close> is \<open>nullptr\<close>), together with the set of addresses that hold
  a live object.  Every operation runs in the option monad: \<open>None\<close> means that the
  operation reads or writes through a null pointer or through a pointer to storage
  that holds no live object (or, for the loops, that it does not return).
\<close>

record 'a links =
  nxt :: "'a \<Rightarrow> 'a option"
  prv :: "'a \<Rightarrow> 'a option"
  live :: "'a set"

definition deref :: "'a option \<Rightarrow> 'a option" where
  "deref p = p"

definition get_next :: "'a links \<Rightarrow> 'a \<Rightarrow> 'a option option" where
  "get_next L x = (if x \<in> live L then Some (nxt L x) else None)"

definition get_prev :: "'a links \<Rightarrow> 'a \<Rightarrow> 'a option option" where
  "get_prev L x = (if x \<in> live L then Some (prv L x) else None)"

definition set_next :: "'a \<Rightarrow> 'a option \<Rightarrow> 'a links \<Rightarrow> 'a links option" where
  "set_next x v L = (if x \<in> live L then Some (L\<lparr>nxt := (nxt L)(x := v)\<rparr>) else None)"

definition set_prev :: "'a \<Rightarrow> 'a option \<Rightarrow> 'a links \<Rightarrow> 'a links option" where
  "set_prev x v L = (if x \<in> live L then Some (L\<lparr>prv := (prv L)(x := v)\<rparr>) else None)"

text \<open>\<open>list_element()\<close>: storage at \<open>x\<close> becomes a live element with both links null.\<close>

definition new_element :: "'a \<Rightarrow> 'a links \<Rightarrow> 'a links" where
  "new_element x L = L\<lparr>nxt := (nxt L)(x := None), prv := (prv L)(x := None),
                       live := insert x (live L)\<rparr>"

text \<open>\<open>list_element::unlink\<close>, lines 21--30.\<close>

definition unlink :: "'a \<Rightarrow> 'a links \<Rightarrow> ('a option \<times> 'a links) option" where
  "unlink x L = do {
     n \<leftarrow> get_next L x;
     L1 \<leftarrow> (case n of None \<Rightarrow> Some L
            | Some n' \<Rightarrow> do { p \<leftarrow> get_prev L x; set_prev n' p L });
     p \<leftarrow> get_prev L1 x;
     L2 \<leftarrow> (case p of None \<Rightarrow> Some L1
            | Some p' \<Rightarrow> do { n2 \<leftarrow> get_next L1 x; set_next p' n2 L1 });
     ret \<leftarrow> get_next L2 x;
     L3 \<leftarrow> set_next x None L2;
     L4 \<leftarrow> set_prev x None L3;
     Some (ret, L4)
   }"

text \<open>\<open>~list_element\<close>: unlink, then the storage is dead.\<close>

definition delete_element :: "'a \<Rightarrow> 'a links \<Rightarrow> 'a links option" where
  "delete_element x L = do {
     (r, L1) \<leftarrow> unlink x L;
     Some (L1\<lparr>live := live L1 - {x}\<rparr>)
   }"

text \<open>\<open>list_element::operator=(list_element&&)\<close>, lines 49--60; \<open>x\<close> is \<open>this\<close>.\<close>

definition move_element :: "'a \<Rightarrow> 'a \<Rightarrow> 'a links \<Rightarrow> 'a links option" where
  "move_element x r L = do {
     (u, L1) \<leftarrow> unlink x L;
     rn \<leftarrow> get_next L1 r;
     L2 \<leftarrow> set_next x rn L1;
     rp \<leftarrow> get_prev L2 r;
     L3 \<leftarrow> set_prev x rp L2;
     n \<leftarrow> get_next L3 x;
     L4 \<leftarrow> (case n of None \<Rightarrow> Some L3 | Some n' \<Rightarrow> set_prev n' (Some x) L3);
     p \<leftarrow> get_prev L4 x;
     L5 \<leftarrow> (case p of None \<Rightarrow> Some L4 | Some p' \<Rightarrow> set_next p' (Some x) L4);
     L6 \<leftarrow> set_prev r None L5;
     set_next r None L6
   }"

text \<open>
  A \<open>list\<close> is its sentinel \<open>root\<close>; it is named by the address of the root.  An
  iterator is its pointer \<open>me\<close>.
\<close>

definition list_init :: "'a \<Rightarrow> 'a links \<Rightarrow> 'a links" where
  "list_init r L = L\<lparr>nxt := (nxt L)(r := Some r), prv := (prv L)(r := Some r),
                      live := insert r (live L)\<rparr>"

definition empty_list :: "'a \<Rightarrow> 'a links \<Rightarrow> bool option" where
  "empty_list r L = do { n \<leftarrow> get_next L r; Some (n = Some r) }"

definition begin_list :: "'a \<Rightarrow> 'a links \<Rightarrow> 'a option option" where
  "begin_list r L = get_next L r"

definition end_list :: "'a \<Rightarrow> 'a option" where
  "end_list r = Some r"

text \<open>\<open>list::insert\<close>, lines 255--263.\<close>

definition insert_list :: "'a option \<Rightarrow> 'a \<Rightarrow> 'a links \<Rightarrow> ('a option \<times> 'a links) option" where
  "insert_list pos v L = do {
     m \<leftarrow> deref pos;
     pp \<leftarrow> get_prev L m;
     p \<leftarrow> deref pp;
     L1 \<leftarrow> set_next p (Some v) L;
     pp1 \<leftarrow> get_prev L1 m;
     L2 \<leftarrow> set_prev v pp1 L1;
     L3 \<leftarrow> set_next v (Some m) L2;
     L4 \<leftarrow> set_prev m (Some v) L3;
     Some (Some v, L4)
   }"

text \<open>\<open>list::erase\<close>, lines 264--269.\<close>

definition erase :: "'a option \<Rightarrow> 'a links \<Rightarrow> ('a option \<times> 'a links) option" where
  "erase pos L = do {
     m \<leftarrow> deref pos;
     ret \<leftarrow> get_next L m;
     (u, L1) \<leftarrow> unlink m L;
     Some (ret, L1)
   }"

text \<open>\<open>list::splice\<close>, lines 270--283.\<close>

definition splice :: "'a option \<Rightarrow> 'a option \<Rightarrow> 'a option \<Rightarrow> 'a links \<Rightarrow> 'a links option" where
  "splice pos first last' L =
     (if pos = first \<or> first = last' then Some L
      else do {
        l \<leftarrow> deref last';
        tlp \<leftarrow> get_prev L l;
        true_last \<leftarrow> deref tlp;
        f \<leftarrow> deref first;
        fpp \<leftarrow> get_prev L f;
        fp \<leftarrow> deref fpp;
        tn \<leftarrow> get_next L true_last;
        L1 \<leftarrow> set_next fp tn L;
        tnp \<leftarrow> get_next L1 true_last;
        tn1 \<leftarrow> deref tnp;
        fpp1 \<leftarrow> get_prev L1 f;
        L2 \<leftarrow> set_prev tn1 fpp1 L1;
        ps \<leftarrow> deref pos;
        ppp \<leftarrow> get_prev L2 ps;
        pp \<leftarrow> deref ppp;
        L3 \<leftarrow> set_next pp (Some f) L2;
        ppp3 \<leftarrow> get_prev L3 ps;
        L4 \<leftarrow> set_prev f ppp3 L3;
        L5 \<leftarrow> set_prev ps (Some true_last) L4;
        set_next true_last (Some ps) L5
      })"

text \<open>\<open>list::clear\<close>, lines 180--196; \<open>clear_loop\<close> is its \<open>while\<close>.\<close>

partial_function (option) clear_loop :: "'a option \<Rightarrow> 'a links \<Rightarrow> ('a option \<times> 'a links) option" where
  "clear_loop next L = do {
     n \<leftarrow> deref next;
     nn \<leftarrow> get_next L n;
     if nn \<noteq> None then do {
       L1 \<leftarrow> set_next n None L;
       L2 \<leftarrow> set_prev n None L1;
       clear_loop nn L2
     } else Some (next, L)
   }"

declare clear_loop.simps [code]

definition clear :: "'a \<Rightarrow> 'a links \<Rightarrow> 'a links option" where
  "clear r L = do {
     e \<leftarrow> empty_list r L;
     if e then Some L
     else do {
       rp \<leftarrow> get_prev L r;
       p \<leftarrow> deref rp;
       L1 \<leftarrow> set_next p None L;
       next \<leftarrow> get_next L1 r;
       L2 \<leftarrow> set_prev r (Some r) L1;
       L3 \<leftarrow> set_next r (Some r) L2;
       (next', L4) \<leftarrow> clear_loop next L3;
       n \<leftarrow> deref next';
       set_prev n None L4
     }
   }"

definition push_front :: "'a \<Rightarrow> 'a \<Rightarrow> 'a links \<Rightarrow> 'a links option" where
  "push_front r u L = do {
     b \<leftarrow> begin_list r L;
     (it, L1) \<leftarrow> insert_list b u L;
     Some L1
   }"

definition push_back :: "'a \<Rightarrow> 'a \<Rightarrow> 'a links \<Rightarrow> 'a links option" where
  "push_back r u L = do {
     (it, L1) \<leftarrow> insert_list (end_list r) u L;
     Some L1
   }"

definition pop_front :: "'a \<Rightarrow> 'a links \<Rightarrow> 'a links option" where
  "pop_front r L = do {
     n \<leftarrow> get_next L r;
     f \<leftarrow> deref n;
     (u, L1) \<leftarrow> unlink f L;
     Some L1
   }"

definition pop_back :: "'a \<Rightarrow> 'a links \<Rightarrow> 'a links option" where
  "pop_back r L = do {
     p \<leftarrow> get_prev L r;
     b \<leftarrow> deref p;
     (u, L1) \<leftarrow> unlink b L;
     Some L1
   }"

text \<open>\<open>list::operator=(list&&)\<close>, lines 173--178; \<open>r\<close> is \<open>this\<close>, \<open>s\<close> the source.\<close>

definition move_list :: "'a \<Rightarrow> 'a \<Rightarrow> 'a links \<Rightarrow> 'a links option" where
  "move_list r s L = do {
     L1 \<leftarrow> clear r L;
     b \<leftarrow> begin_list s L1;
     splice (end_list r) b (end_list s) L1
   }"

text \<open>\<open>~list\<close>: clear, then the root's own destructor.\<close>

definition delete_list :: "'a \<Rightarrow> 'a links \<Rightarrow> 'a links option" where
  "delete_list r L = do {
     L1 \<leftarrow> clear r L;
     delete_element r L1
   }"


section \<open>Signals, connections and walkers (signals.h)\<close>

text \<open>
  Elements tagged \<open>connection_list_tag\<close> are the roots of the signals' connection
  lists and the connections; elements tagged \<open>walker_list_tag\<close> are the roots of the
  connections' walker lists (the member \<open>lst\<close> of a connection) and the
  \<open>iteration_data\<close> objects (walkers).  Signals, connections and walkers are numbered;
  the number stands for the storage address of the object.
\<close>

datatype cnode = SigRoot nat | Conn nat

datatype wnode = ConnRoot nat | Walker nat

text \<open>
  A slot is a \<open>std::function\<close>, that is, code of the caller.  The slots considered here
  are sequences of calls into the library: \<open>disconnect\<close> on a connection, \<open>connect\<close>
  of a new connection (constructed in the named storage) with a slot of its own, a
  nested emission, raising an exception, and \<open>Once k body\<close>, which stands for
  \<^verbatim>\<open>if (!flag[k]) { flag[k] = true; body }\<close> over a flag captured by the slot.
  The member \<open>lst\<close> of a signal is public, and so are \<open>list::insert\<close>, \<open>list::end\<close>
  and \<open>list::to_iterator\<close>: \<open>Insert pos k\<close> is \<open>lst.insert(pos, k)\<close> for a connection
  \<open>k\<close> the caller holds, where \<open>pos\<close> is \<open>lst.end()\<close> or \<open>to_iterator\<close> of a connection.
\<close>

datatype action =
    Disconnect nat
  | Connect nat nat "action list"
  | Emit nat
  | Throw
  | Once nat "action list"
  | Insert cnode nat

text \<open>
  \<open>parent c = None\<close> is an indeterminate pointer (the member has no initialiser, and
  only the constructor used by \<open>connect\<close> sets it); \<open>slot c = None\<close> is an empty
  \<open>std::function\<close>.  \<open>trace\<close> lists the connections whose slot has been invoked, in
  the order of the invocations; \<open>wcount\<close> numbers the walkers allocated so far.
\<close>

record heap =
  cl :: "cnode links"
  wl :: "wnode links"
  parent :: "nat \<Rightarrow> nat option"
  slot :: "nat \<Rightarrow> action list option"
  held :: "nat \<Rightarrow> cnode option"
  deleted :: "nat \<Rightarrow> bool"
  flags :: "nat set"
  trace :: "nat list"
  wcount :: nat

text \<open>The casts \<open>static_cast<connection&>\<close> and \<open>static_cast<iteration_data&>\<close>.\<close>

definition as_connection :: "cnode \<Rightarrow> nat option" where
  "as_connection a = (case a of Conn c \<Rightarrow> Some c | SigRoot s \<Rightarrow> None)"

definition as_walker :: "wnode \<Rightarrow> nat option" where
  "as_walker a = (case a of Walker w \<Rightarrow> Some w | ConnRoot c \<Rightarrow> None)"

definition get_parent :: "heap \<Rightarrow> nat \<Rightarrow> nat option" where
  "get_parent st c = (if Conn c \<in> live (cl st) then parent st c else None)"

definition get_slot :: "heap \<Rightarrow> nat \<Rightarrow> action list option option" where
  "get_slot st c = (if Conn c \<in> live (cl st) then Some (slot st c) else None)"

definition get_held :: "heap \<Rightarrow> nat \<Rightarrow> cnode option option" where
  "get_held st w = (if Walker w \<in> live (wl st) then Some (held st w) else None)"

definition get_deleted :: "heap \<Rightarrow> nat \<Rightarrow> bool option" where
  "get_deleted st w = (if Walker w \<in> live (wl st) then Some (deleted st w) else None)"

definition set_held :: "nat \<Rightarrow> cnode option \<Rightarrow> heap \<Rightarrow> heap option" where
  "set_held w v st =
     (if Walker w \<in> live (wl st) then Some (st\<lparr>held := (held st)(w := v)\<rparr>) else None)"

definition set_deleted :: "nat \<Rightarrow> bool \<Rightarrow> heap \<Rightarrow> heap option" where
  "set_deleted w v st =
     (if Walker w \<in> live (wl st) then Some (st\<lparr>deleted := (deleted st)(w := v)\<rparr>) else None)"

text \<open>The loop \<open>for (auto& a : lst) { a.deleted = true; a.held = asit; }\<close> of \<open>disconnect\<close>.\<close>

partial_function (option) mark_walkers :: "wnode option \<Rightarrow> wnode option \<Rightarrow> cnode option \<Rightarrow> heap \<Rightarrow> heap option" where
  "mark_walkers it e asit st =
     (if it \<noteq> e then do {
        a \<leftarrow> deref it;
        w \<leftarrow> as_walker a;
        st1 \<leftarrow> set_deleted w True st;
        st2 \<leftarrow> set_held w asit st1;
        n \<leftarrow> get_next (wl st2) a;
        mark_walkers n e asit st2
      } else Some st)"

declare mark_walkers.simps [code]

text \<open>\<open>connection::disconnect\<close>, lines 38--51; \<open>c\<close> is \<open>this\<close>.\<close>

definition disconnect :: "nat \<Rightarrow> heap \<Rightarrow> heap option" where
  "disconnect c st = do {
     (next, C1) \<leftarrow> unlink (Conn c) (cl st);
     let st1 = st\<lparr>cl := C1\<rparr>;
     asit \<leftarrow> (case next of
               None \<Rightarrow> do { p \<leftarrow> get_parent st1 c; Some (end_list (SigRoot p)) }
             | Some n \<Rightarrow> Some (Some n));
     b \<leftarrow> begin_list (ConnRoot c) (wl st1);
     st2 \<leftarrow> mark_walkers b (end_list (ConnRoot c)) asit st1;
     p \<leftarrow> get_parent st2 c;
     if asit \<noteq> end_list (SigRoot p) then do {
       a \<leftarrow> deref asit;
       ac \<leftarrow> as_connection a;
       pos \<leftarrow> begin_list (ConnRoot ac) (wl st2);
       first \<leftarrow> begin_list (ConnRoot c) (wl st2);
       W \<leftarrow> splice pos first (end_list (ConnRoot c)) (wl st2);
       Some (st2\<lparr>wl := W\<rparr>)
     } else do {
       W \<leftarrow> clear (ConnRoot c) (wl st2);
       Some (st2\<lparr>wl := W\<rparr>)
     }
   }"

text \<open>The loop \<open>for (auto& a : lst) a.held = to_iterator(*this);\<close> of \<open>movelinks2empty\<close>.\<close>

partial_function (option) retarget_walkers :: "wnode option \<Rightarrow> wnode option \<Rightarrow> cnode option \<Rightarrow> heap \<Rightarrow> heap option" where
  "retarget_walkers it e tgt st =
     (if it \<noteq> e then do {
        a \<leftarrow> deref it;
        w \<leftarrow> as_walker a;
        st1 \<leftarrow> set_held w tgt st;
        n \<leftarrow> get_next (wl st1) a;
        retarget_walkers n e tgt st1
      } else Some st)"

declare retarget_walkers.simps [code]

text \<open>\<open>connection::movelinks2empty\<close>, lines 53--59; \<open>c\<close> is \<open>this\<close>.\<close>

definition movelinks2empty :: "nat \<Rightarrow> nat \<Rightarrow> heap \<Rightarrow> heap option" where
  "movelinks2empty c r st = do {
     C1 \<leftarrow> move_element (Conn c) (Conn r) (cl st);
     W1 \<leftarrow> move_list (ConnRoot c) (ConnRoot r) (wl st);
     let st1 = st\<lparr>cl := C1, wl := W1\<rparr>;
     b \<leftarrow> begin_list (ConnRoot c) (wl st1);
     retarget_walkers b (end_list (ConnRoot c)) (Some (Conn c)) st1
   }"

text \<open>
  Storage for a connection is free when neither of its two list elements is live.
  \<open>new_connection\<close> is what every constructor of \<open>connection\<close> does before its body:
  the base element with null links, the empty walker list, \<open>parent\<close> and \<open>slot\<close>
  as given.
\<close>

definition new_connection :: "nat \<Rightarrow> nat option \<Rightarrow> action list option \<Rightarrow> heap \<Rightarrow> heap option" where
  "new_connection c p f st =
     (if Conn c \<in> live (cl st) \<or> ConnRoot c \<in> live (wl st) then None
      else Some (st\<lparr>cl := new_element (Conn c) (cl st),
                    wl := list_init (ConnRoot c) (wl st),
                    parent := (parent st)(c := p),
                    slot := (slot st)(c := f)\<rparr>))"

text \<open>\<open>connection()\<close>, line 32.\<close>

definition default_connection :: "nat \<Rightarrow> heap \<Rightarrow> heap option" where
  "default_connection c st = new_connection c None None st"

text \<open>
  \<open>connection(connection&&)\<close>, lines 62--65: the slot is moved out of \<open>r\<close>, and
  \<open>parent\<close> is not initialised.  A moved-from \<open>std::function\<close> is taken to be empty,
  as the implementations of the standard library leave it (the standard says valid
  but unspecified).
\<close>

definition move_construct :: "nat \<Rightarrow> nat \<Rightarrow> heap \<Rightarrow> heap option" where
  "move_construct c r st = do {
     f \<leftarrow> get_slot st r;
     st1 \<leftarrow> new_connection c None f (st\<lparr>slot := (slot st)(r := None)\<rparr>);
     movelinks2empty c r st1
   }"


text \<open>
  \<open>~connection\<close>, lines 33--36, followed by the destructors of the members and of the
  base: \<open>~list\<close> of \<open>lst\<close> and \<open>~list_element\<close>.
\<close>

definition destroy_connection :: "nat \<Rightarrow> heap \<Rightarrow> heap option" where
  "destroy_connection c st = do {
     st1 \<leftarrow> disconnect c st;
     W \<leftarrow> delete_list (ConnRoot c) (wl st1);
     C \<leftarrow> delete_element (Conn c) (cl st1);
     Some (st1\<lparr>cl := C, wl := W\<rparr>)
   }"

text \<open>\<open>signal()\<close> and \<open>~signal\<close>, lines 86 and 93: the member \<open>lst\<close>.\<close>

definition new_signal :: "nat \<Rightarrow> heap \<Rightarrow> heap option" where
  "new_signal s st =
     (if SigRoot s \<in> live (cl st) then None
      else Some (st\<lparr>cl := list_init (SigRoot s) (cl st)\<rparr>))"

definition destroy_signal :: "nat \<Rightarrow> heap \<Rightarrow> heap option" where
  "destroy_signal s st = do {
     C \<leftarrow> delete_list (SigRoot s) (cl st);
     Some (st\<lparr>cl := C\<rparr>)
   }"

text \<open>
  \<open>signal::connect\<close>, lines 95--101.  The local \<open>ret\<close> is constructed in the storage
  \<open>c\<close> of the returned object (the copy is elided), so \<open>c\<close> must be free.
\<close>

definition connect :: "nat \<Rightarrow> nat \<Rightarrow> action list \<Rightarrow> heap \<Rightarrow> heap option" where
  "connect s c f st = do {
     st1 \<leftarrow> new_connection c (Some s) (Some f) st;
     C \<leftarrow> push_front (SigRoot s) (Conn c) (cl st1);
     Some (st1\<lparr>cl := C\<rparr>)
   }"

text \<open>
  One step of the loop of \<open>signal::operator()\<close>, lines 111--114, up to the call of the
  slot: the walker \<open>d\<close> is allocated, records \<open>cur\<close> and is parked on the connection
  \<open>cur\<close> points to.
\<close>

definition park :: "cnode option \<Rightarrow> heap \<Rightarrow> (nat \<times> nat \<times> heap) option" where
  "park cur st = do {
     let d = wcount st;
     let st1 = st\<lparr>wl := new_element (Walker d) (wl st),
                   held := (held st)(d := None),
                   deleted := (deleted st)(d := False),
                   wcount := Suc d\<rparr>;
     st2 \<leftarrow> set_held d cur st1;
     a \<leftarrow> deref cur;
     c \<leftarrow> as_connection a;
     if Conn c \<in> live (cl st2) then do {
       W \<leftarrow> push_front (ConnRoot c) (Walker d) (wl st2);
       Some (d, c, st2\<lparr>wl := W\<rparr>)
     } else None
   }"

text \<open>\<open>~iteration_data\<close> at the end of the step, or when an exception unwinds it.\<close>

definition unpark :: "nat \<Rightarrow> heap \<Rightarrow> heap option" where
  "unpark d st = do {
     W \<leftarrow> delete_element (Walker d) (wl st);
     Some (st\<lparr>wl := W\<rparr>)
   }"

text \<open>Lines 118--121 and the end of the step: the next value of \<open>cur\<close>.\<close>

definition resume :: "nat \<Rightarrow> cnode option \<Rightarrow> heap \<Rightarrow> (cnode option \<times> heap) option" where
  "resume d cur st = do {
     del \<leftarrow> get_deleted st d;
     cur' \<leftarrow> (if \<not> del then do { a \<leftarrow> deref cur; get_next (cl st) a }
              else get_held st d);
     st1 \<leftarrow> unpark d st;
     Some (cur', st1)
   }"

text \<open>
  The result of an emission or of a slot: it returns, it leaves by an exception, it
  faults (an operation above gave \<open>None\<close>), or the fuel is used up.  The fuel bounds
  the depth of the call stack and the number of steps of the loop.
\<close>

datatype outcome = Finished heap | Raised heap | Fault | OutOfFuel

text \<open>
  \<open>emit_loop\<close> is the \<open>while\<close> of \<open>signal::operator()\<close>, lines 109--122, \<open>emit\<close> the
  operator itself and \<open>run\<close> the execution of a slot.  Calling an empty
  \<open>std::function\<close> raises \<open>std::bad_function_call\<close>.
\<close>

fun emit_loop :: "nat \<Rightarrow> nat \<Rightarrow> cnode option \<Rightarrow> heap \<Rightarrow> outcome"
  and emit :: "nat \<Rightarrow> nat \<Rightarrow> heap \<Rightarrow> outcome"
  and run :: "nat \<Rightarrow> action list \<Rightarrow> heap \<Rightarrow> outcome"
where
  "emit_loop 0 s cur st = OutOfFuel"
| "emit_loop (Suc n) s cur st =
     (if cur \<noteq> None \<and> cur \<noteq> end_list (SigRoot s) then
        (case park cur st of
           None \<Rightarrow> Fault
         | Some (d, c, st1) \<Rightarrow>
            (case get_slot st1 c of
               None \<Rightarrow> Fault
             | Some None \<Rightarrow>
                (case unpark d st1 of None \<Rightarrow> Fault | Some st2 \<Rightarrow> Raised st2)
             | Some (Some f) \<Rightarrow>
                (case run n f (st1\<lparr>trace := trace st1 @ [c]\<rparr>) of
                   Finished st2 \<Rightarrow>
                     (case resume d cur st2 of
                        None \<Rightarrow> Fault
                      | Some (cur', st3) \<Rightarrow> emit_loop n s cur' st3)
                 | Raised st2 \<Rightarrow>
                     (case unpark d st2 of None \<Rightarrow> Fault | Some st3 \<Rightarrow> Raised st3)
                 | Fault \<Rightarrow> Fault
                 | OutOfFuel \<Rightarrow> OutOfFuel)))
      else Finished st)"
| "emit n s st =
     (case empty_list (SigRoot s) (cl st) of
        None \<Rightarrow> Fault
      | Some True \<Rightarrow> Finished st
      | Some False \<Rightarrow>
         (case begin_list (SigRoot s) (cl st) of
            None \<Rightarrow> Fault
          | Some cur \<Rightarrow> emit_loop n s cur st))"
| "run n [] st = Finished st"
| "run n (Disconnect c # as) st =
     (case disconnect c st of None \<Rightarrow> Fault | Some st1 \<Rightarrow> run n as st1)"
| "run n (Connect s c f # as) st =
     (case connect s c f st of None \<Rightarrow> Fault | Some st1 \<Rightarrow> run n as st1)"
| "run n (Emit s # as) st =
     (case emit n s st of Finished st1 \<Rightarrow> run n as st1 | r \<Rightarrow> r)"
| "run n (Throw # as) st = Raised st"
| "run n (Insert pos k # as) st =
     (case insert_list (Some pos) (Conn k) (cl st) of
        None \<Rightarrow> Fault
      | Some (it, C) \<Rightarrow> run n as (st\<lparr>cl := C\<rparr>))"
| "run n (Once k body # as) st =
     (if k \<in> flags st then run n as st
      else (case run n body (st\<lparr>flags := insert k (flags st)\<rparr>) of
              Finished st1 \<Rightarrow> run n as st1 | r \<Rightarrow> r))"

section \<open>Well-formed lists\<close>

text \<open>
  \<open>path L a xs b\<close>: following \<open>next\<close> from \<open>a\<close> visits exactly \<open>xs\<close> and then
  \<open>b\<close>, and every \<open>prev\<close> on the way points back.  \<open>dlist L r xs\<close>: the list with
  root \<open>r\<close> is circular, its members are \<open>xs\<close> in order, all distinct and live.
\<close>

fun path :: "'a links \<Rightarrow> 'a \<Rightarrow> 'a list \<Rightarrow> 'a \<Rightarrow> bool" where
  "path L a [] b = (nxt L a = Some b \<and> prv L b = Some a)"
| "path L a (x # xs) b = (nxt L a = Some x \<and> prv L x = Some a \<and> path L x xs b)"

definition dlist :: "'a links \<Rightarrow> 'a \<Rightarrow> 'a list \<Rightarrow> bool" where
  "dlist L r xs = (path L r xs r \<and> distinct (r # xs) \<and> set (r # xs) \<subseteq> live L)"

text \<open>A list with root 0 and members 1, 2, 3.\<close>

definition links123 :: "nat links" where
  "links123 = \<lparr>nxt = (\<lambda>x. None)(0 := Some 1, 1 := Some 2, 2 := Some 3, 3 := Some 0),
               prv = (\<lambda>x. None)(0 := Some 3, 1 := Some 0, 2 := Some 1, 3 := Some 2),
               live = {0, 1, 2, 3}\<rparr>"

text \<open>
  \<open>nchain L y ys\<close>: following \<open>next\<close> from \<open>y\<close> visits \<open>ys\<close> and ends at a null
  pointer.  \<open>cleared r xs L\<close>: the memory after the list with root \<open>r\<close> and members
  \<open>xs\<close> has been emptied and every member unlinked.
\<close>

fun nchain :: "'a links \<Rightarrow> 'a \<Rightarrow> 'a list \<Rightarrow> bool" where
  "nchain L y [] = (nxt L y = None)"
| "nchain L y (z # zs) = (nxt L y = Some z \<and> nchain L z zs)"

definition nulled :: "'a set \<Rightarrow> 'a links \<Rightarrow> 'a links" where
  "nulled A L = L\<lparr>nxt := (\<lambda>a. if a \<in> A then None else nxt L a),
                   prv := (\<lambda>a. if a \<in> A then None else prv L a)\<rparr>"

definition cleared :: "'a \<Rightarrow> 'a list \<Rightarrow> 'a links \<Rightarrow> 'a links" where
  "cleared r xs L = L\<lparr>nxt := (\<lambda>a. if a = r then Some r else if a \<in> set xs then None else nxt L a),
                       prv := (\<lambda>a. if a = r then Some r else if a \<in> set xs then None else prv L a)\<rparr>"

text \<open>
  \<open>spliced r1 xs r2 ys L\<close>: the memory after all members \<open>xs\<close> of the list with root
  \<open>r1\<close> have been moved to the front of the list with root \<open>r2\<close> and members \<open>ys\<close>.
\<close>

definition spliced :: "'a \<Rightarrow> 'a list \<Rightarrow> 'a \<Rightarrow> 'a list \<Rightarrow> 'a links \<Rightarrow> 'a links" where
  "spliced r1 xs r2 ys L =
     (if xs = [] then L
      else L\<lparr>nxt := (nxt L)(r1 := Some r1, r2 := Some (hd xs), last xs := Some (hd (ys @ [r2]))),
             prv := (prv L)(r1 := Some r1, hd xs := Some r2, hd (ys @ [r2]) := Some (last xs))\<rparr>)"

section \<open>Well-formed signals\<close>

text \<open>
  \<open>marked ws asit st\<close> and \<open>retargeted ws tgt st\<close>: the memory after the loops of
  \<open>disconnect\<close> and \<open>movelinks2empty\<close> over the walkers \<open>ws\<close>.
\<close>

definition marked :: "nat list \<Rightarrow> cnode option \<Rightarrow> heap \<Rightarrow> heap" where
  "marked ws asit st =
     st\<lparr>held := (\<lambda>w. if w \<in> set ws then asit else held st w),
        deleted := (\<lambda>w. if w \<in> set ws then True else deleted st w)\<rparr>"


text \<open>
  The state of one signal \<open>s\<close> and its connections.  \<open>cs\<close> are the connections linked
  in the signal's list, in list order; \<open>D\<close> are the live connections that are not
  linked; \<open>W c\<close> are the walkers parked on connection \<open>c\<close>, in list order; \<open>U\<close> are the
  live walkers that are parked nowhere (their connection was disconnected and had no
  successor).  No other signal, connection or walker is live.
\<close>

definition parked :: "nat list \<Rightarrow> (nat \<Rightarrow> nat list) \<Rightarrow> nat set" where
  "parked cs W = (\<Union>c\<in>set cs. set (W c))"

definition sig_inv :: "heap \<Rightarrow> nat \<Rightarrow> nat list \<Rightarrow> nat set \<Rightarrow> (nat \<Rightarrow> nat list) \<Rightarrow> nat set \<Rightarrow> bool" where
  "sig_inv st s cs D W U \<longleftrightarrow>
     dlist (cl st) (SigRoot s) (map Conn cs) \<and>
     live (cl st) = insert (SigRoot s) (Conn ` (set cs \<union> D)) \<and>
     set cs \<inter> D = {} \<and>
     (\<forall>c\<in>D. nxt (cl st) (Conn c) = None \<and> prv (cl st) (Conn c) = None \<and> W c = []) \<and>
     (\<forall>c\<in>set cs \<union> D. (parent st c = None \<or> parent st c = Some s) \<and>
         dlist (wl st) (ConnRoot c) (map Walker (W c)) \<and>
         (\<forall>w\<in>set (W c). held st w = Some (Conn c))) \<and>
     live (wl st) = ConnRoot ` (set cs \<union> D) \<union> Walker ` (parked cs W \<union> U) \<and>
     (\<forall>w\<in>U. nxt (wl st) (Walker w) = None \<and> prv (wl st) (Walker w) = None \<and>
         w \<notin> parked cs W \<and> deleted st w \<and> held st w = Some (SigRoot s)) \<and>
     (\<forall>w\<in>parked cs W \<union> U. w < wcount st)"

text \<open>What a slot can observe of the caller's side: slots, flags, parents.\<close>

definition same_user :: "heap \<Rightarrow> heap \<Rightarrow> bool" where
  "same_user st st' \<longleftrightarrow>
     slot st' = slot st \<and> flags st' = flags st \<and> parent st' = parent st \<and> trace st' = trace st"

text \<open>
  The memory before any object exists, and a caller that connects a list of slots, each
  in storage of its own, one after the other.
\<close>

definition heap0 :: heap where
  "heap0 = \<lparr>cl = \<lparr>nxt = (\<lambda>x. None), prv = (\<lambda>x. None), live = {}\<rparr>,
            wl = \<lparr>nxt = (\<lambda>x. None), prv = (\<lambda>x. None), live = {}\<rparr>,
            parent = (\<lambda>c. None), slot = (\<lambda>c. None), held = (\<lambda>w. None),
            deleted = (\<lambda>w. False), flags = {}, trace = [], wcount = 0\<rparr>"

fun connect_all :: "nat \<Rightarrow> (nat \<times> action list) list \<Rightarrow> heap \<Rightarrow> heap option" where
  "connect_all s [] st = Some st"
| "connect_all s ((c, f) # ks) st =
     (case connect s c f st of None \<Rightarrow> None | Some st1 \<Rightarrow> connect_all s ks st1)"

text \<open>The memory that holds one signal, number 0, and nothing else.\<close>

definition sig0 :: heap where
  "sig0 = heap0\<lparr>cl := list_init (SigRoot 0) (cl heap0)\<rparr>"

text \<open>
  The walkers after \<open>disconnect\<close> of a linked connection \<open>X\<close> that is followed in the
  list by the connections \<open>bs\<close>: the walkers parked on \<open>X\<close> are parked on the
  successor of \<open>X\<close>, in front of those already there, or parked nowhere when \<open>X\<close> was
  the last connection.
\<close>

definition disc_W :: "nat \<Rightarrow> nat list \<Rightarrow> (nat \<Rightarrow> nat list) \<Rightarrow> (nat \<Rightarrow> nat list)" where
  "disc_W X bs W = (case bs of [] \<Rightarrow> W(X := []) | b # bs' \<Rightarrow> W(X := [], b := W X @ W b))"

definition disc_U :: "nat \<Rightarrow> nat list \<Rightarrow> (nat \<Rightarrow> nat list) \<Rightarrow> nat set \<Rightarrow> nat set" where
  "disc_U X bs W U = (case bs of [] \<Rightarrow> U \<union> set (W X) | b # bs' \<Rightarrow> U)"

text \<open>\<open>after X cs\<close>: the connections that follow \<open>X\<close> in the list \<open>cs\<close>.\<close>

definition after :: "nat \<Rightarrow> nat list \<Rightarrow> nat list" where
  "after X cs = tl (dropWhile (\<lambda>y. y \<noteq> X) cs)"

text \<open>
  A slot is quiet in a state when it does nothing there: it is empty, or it is guarded
  by a flag that is set already.
\<close>

definition quiet :: "nat set \<Rightarrow> action list \<Rightarrow> bool" where
  "quiet F f \<longleftrightarrow> f = [] \<or> (\<exists>g body. f = [Once g body] \<and> g \<in> F)"

text \<open>
  \<open>no_dangling\<close>: every link of a live list element and every position recorded by a
  live walker is null or the address of a live object.  (The \<open>parent\<close> of a connection
  is left out: \<open>disconnect\<close> compares the address it holds and never reads through
  it.)  \<open>orphaned st C\<close>: no signal is live; the live connections are \<open>C\<close>, none is
  linked, none has a walker.
\<close>

definition no_dangling :: "heap \<Rightarrow> bool" where
  "no_dangling st \<longleftrightarrow>
     (\<forall>x\<in>live (cl st). \<forall>y. nxt (cl st) x = Some y \<or> prv (cl st) x = Some y \<longrightarrow> y \<in> live (cl st)) \<and>
     (\<forall>x\<in>live (wl st). \<forall>y. nxt (wl st) x = Some y \<or> prv (wl st) x = Some y \<longrightarrow> y \<in> live (wl st)) \<and>
     (\<forall>w y. Walker w \<in> live (wl st) \<and> held st w = Some y \<longrightarrow> y \<in> live (cl st))"

definition orphaned :: "heap \<Rightarrow> nat set \<Rightarrow> bool" where
  "orphaned st C \<longleftrightarrow>
     live (cl st) = Conn ` C \<and> live (wl st) = ConnRoot ` C \<and>
     (\<forall>c\<in>C. nxt (cl st) (Conn c) = None \<and> prv (cl st) (Conn c) = None \<and>
        parent st c \<noteq> None \<and> dlist (wl st) (ConnRoot c) [])"

section \<open>Properties of the list operations\<close>

lemma path_append: "path L a (xs @ y # ys) b = (path L a xs y \<and> path L y ys b)"
  by (induction xs arbitrary: a) auto

lemma path_live_upd [simp]: "path (L\<lparr>live := A\<rparr>) a xs b = path L a xs b"
  by (induction xs arbitrary: a) auto

lemma path_frame:
  "\<forall>u\<in>set (a # xs). nxt L' u = nxt L u \<Longrightarrow> \<forall>v\<in>set (xs @ [b]). prv L' v = prv L v
   \<Longrightarrow> path L' a xs b = path L a xs b"
  by (induction xs arbitrary: a) auto

lemma path_redirect:
  "path L a xs x \<Longrightarrow> nxt L' (last (a # xs)) = Some b \<Longrightarrow> prv L' b = Some (last (a # xs))
   \<Longrightarrow> \<forall>u\<in>set (butlast (a # xs)). nxt L' u = nxt L u \<Longrightarrow> \<forall>v\<in>set xs. prv L' v = prv L v
   \<Longrightarrow> path L' a xs b"
  by (induction xs arbitrary: a) auto

lemma last_notin_butlast: "distinct xs \<Longrightarrow> xs \<noteq> [] \<Longrightarrow> last xs \<notin> set (butlast xs)"
  by (metis append_butlast_last_id distinct_append disjoint_iff list.set_intros(1) distinct.simps(2) not_distinct_conv_prefix)

lemma unlink_linked:
  assumes "x \<in> live L" "nxt L x = Some n" "prv L x = Some p" "n \<in> live L" "p \<in> live L"
    "n \<noteq> x" "p \<noteq> x"
  shows "unlink x L = Some (Some n, L\<lparr>nxt := (nxt L)(p := Some n, x := None),
                                      prv := (prv L)(n := Some p, x := None)\<rparr>)"
  using assms by (simp add: unlink_def get_next_def get_prev_def set_next_def set_prev_def)

lemma unlink_unlinked:
  assumes "x \<in> live L" "nxt L x = None" "prv L x = None"
  shows "unlink x L = Some (None, L)"
  using assms by (simp add: unlink_def get_next_def get_prev_def set_next_def set_prev_def fun_upd_idem)

lemma dlist_nxt_prv:
  assumes "dlist L r (as @ x # bs)"
  shows "nxt L x = Some (hd (bs @ [r]))" "prv L x = Some (last (r # as))"
    "hd (bs @ [r]) \<noteq> x" "last (r # as) \<noteq> x" "x \<in> live L" "hd (bs @ [r]) \<in> live L" "last (r # as) \<in> live L"
proof -
  from assms have p: "path L r as x" "path L x bs r" and d: "distinct (r # as @ x # bs)"
    and l: "set (r # as @ x # bs) \<subseteq> live L"
    by (auto simp: dlist_def path_append)
  show "nxt L x = Some (hd (bs @ [r]))" using p(2) by (cases bs) auto
  show "prv L x = Some (last (r # as))" using p(1) 
    by (induction as arbitrary: r) auto
  show "hd (bs @ [r]) \<noteq> x" using d by (cases bs) auto
  have "last (r # as) \<in> set (r # as)" by (rule last_in_set) simp
  then show "last (r # as) \<noteq> x" using d by auto
  show "x \<in> live L" using l by auto
  show "hd (bs @ [r]) \<in> live L" using l by (cases bs) auto
  show "last (r # as) \<in> live L" using l \<open>last (r # as) \<in> set (r # as)\<close> by auto
qed

lemma dlist_unlink:
  assumes "dlist L r (as @ x # bs)"
  shows "dlist (L\<lparr>nxt := (nxt L)(last (r # as) := Some (hd (bs @ [r])), x := None),
                   prv := (prv L)(hd (bs @ [r]) := Some (last (r # as)), x := None)\<rparr>) r (as @ bs)"
proof -
  let ?p = "last (r # as)" and ?n = "hd (bs @ [r])"
  let ?L = "L\<lparr>nxt := (nxt L)(?p := Some ?n, x := None), prv := (prv L)(?n := Some ?p, x := None)\<rparr>"
  from assms have p: "path L r as x" "path L x bs r" and d: "distinct (r # as @ x # bs)"
    and l: "set (r # as @ x # bs) \<subseteq> live L"
    by (auto simp: dlist_def path_append)
  note np = dlist_nxt_prv[OF assms]
  have pin: "?p \<in> set (r # as)" by (rule last_in_set) simp
  have A: "path ?L r as ?n"
  proof (rule path_redirect[OF p(1)])
    show "nxt ?L ?p = Some ?n" using np by simp
    show "prv ?L ?n = Some ?p" using np by simp
    show "\<forall>u\<in>set (butlast (r # as)). nxt ?L u = nxt L u"
    proof
      fix u assume u: "u \<in> set (butlast (r # as))"
      then have "u \<in> set (r # as)" by (rule in_set_butlastD)
      moreover have "u \<noteq> ?p" using last_notin_butlast[of "r # as"] d u by auto
      ultimately show "nxt ?L u = nxt L u" using d by auto
    qed
    show "\<forall>v\<in>set as. prv ?L v = prv L v" using d by (cases bs) auto
  qed
  have B: "path ?L r (as @ bs) r"
  proof (cases bs)
    case Nil
    then show ?thesis using A by simp
  next
    case (Cons y bs')
    have "path ?L y bs' r = path L y bs' r"
      apply (rule path_frame) using d pin Cons by auto
    then show ?thesis using A p(2) Cons by (simp add: path_append)
  qed
  show ?thesis using B d l by (auto simp: dlist_def)
qed

lemma unlink_dlist:
  assumes "dlist L r (as @ x # bs)"
  shows "unlink x L = Some (Some (hd (bs @ [r])),
           L\<lparr>nxt := (nxt L)(last (r # as) := Some (hd (bs @ [r])), x := None),
             prv := (prv L)(hd (bs @ [r]) := Some (last (r # as)), x := None)\<rparr>)"
  using dlist_nxt_prv[OF assms] by (intro unlink_linked) auto

lemma dlist_hd:
  assumes "dlist L r xs"
  shows "nxt L r = Some (hd (xs @ [r]))" "prv L (hd (xs @ [r])) = Some r" "hd (xs @ [r]) \<in> live L"
    "r \<in> live L"
  using assms by (cases xs; auto simp: dlist_def)+

lemma dlist_last:
  assumes "dlist L r xs"
  shows "prv L r = Some (last (r # xs))" "nxt L (last (r # xs)) = Some r" "last (r # xs) \<in> live L"
proof -
  have "path L a ys b \<Longrightarrow> prv L b = Some (last (a # ys)) \<and> nxt L (last (a # ys)) = Some b" for a ys b
    by (induction ys arbitrary: a) auto
  from this[of r xs r] assms show "prv L r = Some (last (r # xs))" "nxt L (last (r # xs)) = Some r"
    by (auto simp: dlist_def)
  have "last (r # xs) \<in> set (r # xs)" by (rule last_in_set) simp
  then show "last (r # xs) \<in> live L" using assms by (auto simp: dlist_def)
qed

lemma push_front_dlist:
  assumes "dlist L r xs" "u \<in> live L" "u \<notin> set (r # xs)"
  shows "push_front r u L = Some (L\<lparr>nxt := (nxt L)(r := Some u, u := Some (hd (xs @ [r]))),
                                     prv := (prv L)(u := Some r, hd (xs @ [r]) := Some u)\<rparr>)"
  using dlist_hd[OF assms(1)] assms(2,3)
  by (auto simp: push_front_def begin_list_def insert_list_def deref_def get_next_def get_prev_def
      set_next_def set_prev_def)

lemma dlist_push_front:
  assumes "dlist L r xs" "u \<in> live L" "u \<notin> set (r # xs)"
  shows "dlist (L\<lparr>nxt := (nxt L)(r := Some u, u := Some (hd (xs @ [r]))),
                   prv := (prv L)(u := Some r, hd (xs @ [r]) := Some u)\<rparr>) r (u # xs)"
proof -
  let ?L = "L\<lparr>nxt := (nxt L)(r := Some u, u := Some (hd (xs @ [r]))),
                   prv := (prv L)(u := Some r, hd (xs @ [r]) := Some u)\<rparr>"
  from assms have p: "path L r xs r" and d: "distinct (r # xs)" by (auto simp: dlist_def)
  have "path ?L u xs r"
  proof (cases xs)
    case Nil
    then show ?thesis using assms by auto
  next
    case (Cons y ys)
    have "path ?L y ys r = path L y ys r"
      apply (rule path_frame) using d assms(3) Cons by auto
    then show ?thesis using p Cons assms(3) by auto
  qed
  then have "path ?L r (u # xs) r" using assms(3) by (cases xs) auto
  then show ?thesis using assms by (auto simp: dlist_def)
qed

lemma dlist_frame:
  assumes "dlist L r xs" "\<forall>u\<in>set (r # xs). nxt L' u = nxt L u \<and> prv L' u = prv L u"
    "set (r # xs) \<subseteq> live L'"
  shows "dlist L' r xs"
proof -
  have "path L' r xs r = path L r xs r"
    by (rule path_frame) (use assms(2) in auto)
  then show ?thesis using assms by (auto simp: dlist_def)
qed

lemma nchain_frame:
  "\<forall>u\<in>set (y # ys). nxt L' u = nxt L u \<Longrightarrow> nchain L' y ys = nchain L y ys"
  by (induction ys arbitrary: y) auto

lemma clear_loop_nchain:
  "nchain L y ys \<Longrightarrow> distinct (y # ys) \<Longrightarrow> set (y # ys) \<subseteq> live L
   \<Longrightarrow> clear_loop (Some y) L = Some (Some (last (y # ys)), nulled (set (butlast (y # ys))) L)"
proof (induction ys arbitrary: y L)
  case Nil
  then show ?case
    by (subst clear_loop.simps) (simp add: deref_def get_next_def nulled_def)
next
  case (Cons z zs)
  let ?L = "L\<lparr>nxt := (nxt L)(y := None), prv := (prv L)(y := None)\<rparr>"
  have "nchain ?L z zs = nchain L z zs"
    by (rule nchain_frame) (use Cons.prems in auto)
  then have "clear_loop (Some z) ?L = Some (Some (last (z # zs)), nulled (set (butlast (z # zs))) ?L)"
    using Cons.prems by (intro Cons.IH) auto
  moreover have "nulled (set (butlast (z # zs))) ?L = nulled (set (butlast (y # z # zs))) L"
    by (auto simp: nulled_def fun_eq_iff)
  ultimately show ?case using Cons.prems
    by (subst clear_loop.simps) (simp add: deref_def get_next_def set_next_def set_prev_def)
qed

lemma path_nchain:
  "path L a ys b \<Longrightarrow> nxt L' (last (a # ys)) = None
   \<Longrightarrow> \<forall>u\<in>set (butlast (a # ys)). nxt L' u = nxt L u \<Longrightarrow> nchain L' a ys"
  by (induction ys arbitrary: a) auto

lemma clear_dlist:
  assumes "dlist L r xs"
  shows "clear r L = Some (cleared r xs L)"
proof (cases xs)
  case Nil
  then have "nxt L r = Some r" "prv L r = Some r" "r \<in> live L" using assms by (auto simp: dlist_def)
  then have "cleared r [] L = L" by (auto simp: cleared_def fun_eq_iff)
  then show ?thesis using Nil \<open>nxt L r = Some r\<close> \<open>r \<in> live L\<close>
    by (simp add: clear_def empty_list_def get_next_def)
next
  case (Cons y ys)
  define t where "t = last xs"
  from assms have p: "path L r xs r" and d: "distinct (r # xs)" and l: "set (r # xs) \<subseteq> live L"
    by (auto simp: dlist_def)
  have tin: "t \<in> set xs" unfolding t_def using Cons by (intro last_in_set) simp
  have tr: "t \<noteq> r" using tin d by auto
  have lst: "prv L r = Some t" using dlist_last(1)[OF assms] Cons by (simp add: t_def)
  have hdx: "nxt L r = Some y" using p Cons by simp
  have yr: "y \<noteq> r" using d Cons by auto
  have lv: "r \<in> live L" "t \<in> live L" using l tin by auto
  let ?L3 = "L\<lparr>prv := (prv L)(r := Some r), nxt := (nxt L)(t := None, r := Some r)\<rparr>"
  have py: "path L y ys r" using p Cons by simp
  have ty: "t = last (y # ys)" using Cons t_def by simp
  have nc: "nchain ?L3 y ys"
  proof (rule path_nchain[OF py])
    show "nxt ?L3 (last (y # ys)) = None" using tr ty by simp
    show "\<forall>u\<in>set (butlast (y # ys)). nxt ?L3 u = nxt L u"
    proof
      fix u assume u: "u \<in> set (butlast (y # ys))"
      then have "u \<in> set (y # ys)" by (rule in_set_butlastD)
      moreover have "u \<noteq> t" using last_notin_butlast[of "y # ys"] d u Cons ty by auto
      ultimately show "nxt ?L3 u = nxt L u" using d Cons by auto
    qed
  qed
  have "clear_loop (Some y) ?L3 = Some (Some (last (y # ys)), nulled (set (butlast (y # ys))) ?L3)"
    by (rule clear_loop_nchain[OF nc]) (use d l Cons in auto)
  then have cl: "clear_loop (Some y) ?L3 = Some (Some t, nulled (set (butlast xs)) ?L3)"
    using ty Cons by simp
  have fin: "set_prev t None (nulled (set (butlast xs)) ?L3) = Some (cleared r xs L)"
  proof -
    have "xs = butlast xs @ [t]" using Cons t_def by simp
    then have "set xs = insert t (set (butlast xs))"
      by (metis Un_insert_right append_Nil2 list.simps(15) set_append)
    moreover have "r \<notin> set (butlast xs)" using d by (auto dest: in_set_butlastD)
    ultimately show ?thesis using tr lv
      by (auto simp: set_prev_def nulled_def cleared_def fun_eq_iff intro!: links.equality)
  qed
  have "clear r L = do { (next', L4) \<leftarrow> clear_loop (Some y) ?L3; n \<leftarrow> deref next'; set_prev n None L4 }"
    using lv lst hdx tr yr
    by (simp add: clear_def empty_list_def get_next_def get_prev_def set_next_def set_prev_def deref_def)
  also have "\<dots> = Some (cleared r xs L)"
    by (simp only: cl) (simp add: deref_def fin)
  finally show ?thesis .
qed

lemma dlist_cleared: "r \<in> live L \<Longrightarrow> dlist (cleared r xs L) r []"
  by (simp add: dlist_def cleared_def)

lemma splice_whole:
  assumes "dlist L r1 xs" "dlist L r2 ys" "set (r1 # xs) \<inter> set (r2 # ys) = {}"
  shows "splice (Some (hd (ys @ [r2]))) (Some (hd (xs @ [r1]))) (Some r1) L
           = Some (spliced r1 xs r2 ys L)"
proof (cases xs)
  case Nil
  then show ?thesis by (simp add: splice_def spliced_def)
next
  case (Cons x xs')
  define t where "t = last xs"
  define ps where "ps = hd (ys @ [r2])"
  have tin: "t \<in> set xs" unfolding t_def using Cons by (intro last_in_set) simp
  have psin: "ps \<in> set (r2 # ys)" unfolding ps_def by (cases ys) auto
  from assms(1) have d1: "distinct (r1 # xs)" and l1: "set (r1 # xs) \<subseteq> live L"
    by (auto simp: dlist_def)
  from assms(2) have d2: "distinct (r2 # ys)" and l2: "set (r2 # ys) \<subseteq> live L"
    by (auto simp: dlist_def)
  have f1: "prv L r1 = Some t" "nxt L t = Some r1"
    using dlist_last[OF assms(1)] Cons by (simp_all add: t_def)
  have f2: "prv L x = Some r1" using dlist_hd(2)[OF assms(1)] Cons by simp
  have f3: "prv L ps = Some r2" using dlist_hd(2)[OF assms(2)] by (simp add: ps_def)
  have ne: "x \<noteq> r1" "t \<noteq> r1" "ps \<noteq> r1" "ps \<noteq> x" "ps \<noteq> t" "r2 \<noteq> r1" "r2 \<noteq> x" "r2 \<noteq> t"
    using d1 tin psin assms(3) Cons by auto
  have lv: "r1 \<in> live L" "x \<in> live L" "t \<in> live L" "ps \<in> live L" "r2 \<in> live L"
    using l1 l2 tin psin Cons by auto
  have "splice (Some ps) (Some x) (Some r1) L =
     Some (L\<lparr>nxt := (nxt L)(r1 := Some r1, r2 := Some x, t := Some ps),
             prv := (prv L)(r1 := Some r1, x := Some r2, ps := Some t)\<rparr>)"
    using f1 f2 f3 ne lv
    by (simp add: splice_def deref_def get_next_def get_prev_def set_next_def set_prev_def)
  then show ?thesis using Cons by (simp add: spliced_def t_def ps_def)
qed

lemma dlist_spliced_src:
  assumes "dlist L r1 xs" "dlist L r2 ys" "set (r1 # xs) \<inter> set (r2 # ys) = {}"
  shows "dlist (spliced r1 xs r2 ys L) r1 []"
proof (cases xs)
  case Nil
  then show ?thesis using assms by (simp add: spliced_def)
next
  case (Cons x xs')
  have "last xs \<in> set xs" using Cons by (intro last_in_set) simp
  moreover have "hd (ys @ [r2]) \<in> set (r2 # ys)" by (cases ys) auto
  ultimately show ?thesis using assms Cons by (auto simp: spliced_def dlist_def)
qed

lemma dlist_spliced_dst:
  assumes "dlist L r1 xs" "dlist L r2 ys" "set (r1 # xs) \<inter> set (r2 # ys) = {}"
  shows "dlist (spliced r1 xs r2 ys L) r2 (xs @ ys)"
proof (cases xs)
  case Nil
  then show ?thesis using assms by (simp add: spliced_def)
next
  case (Cons x xs')
  define t where "t = last xs"
  define ps where "ps = hd (ys @ [r2])"
  let ?L = "L\<lparr>nxt := (nxt L)(r1 := Some r1, r2 := Some x, t := Some ps),
             prv := (prv L)(r1 := Some r1, x := Some r2, ps := Some t)\<rparr>"
  have L': "spliced r1 xs r2 ys L = ?L" using Cons by (simp add: spliced_def t_def ps_def)
  have tin: "t \<in> set xs" unfolding t_def using Cons by (intro last_in_set) simp
  have tl: "t = last (x # xs')" using Cons t_def by simp
  have psin: "ps \<in> set (r2 # ys)" unfolding ps_def by (cases ys) auto
  from assms(1) have p1: "path L x xs' r1" and d1: "distinct (r1 # xs)" and l1: "set (r1 # xs) \<subseteq> live L"
    using Cons by (auto simp: dlist_def)
  from assms(2) have p2: "path L r2 ys r2" and d2: "distinct (r2 # ys)" and l2: "set (r2 # ys) \<subseteq> live L"
    by (auto simp: dlist_def)
  have ne: "x \<noteq> r1" "t \<noteq> r1" "ps \<noteq> r1" "ps \<noteq> x" "ps \<noteq> t" "r2 \<noteq> r1" "r2 \<noteq> x" "r2 \<noteq> t"
    using d1 tin psin assms(3) Cons by auto
  have A: "path ?L x xs' ps"
  proof (rule path_redirect[OF p1])
    show "nxt ?L (last (x # xs')) = Some ps" using tl by simp
    show "prv ?L ps = Some (last (x # xs'))" using tl by simp
    show "\<forall>u\<in>set (butlast (x # xs')). nxt ?L u = nxt L u"
    proof
      fix u assume u: "u \<in> set (butlast (x # xs'))"
      then have "u \<in> set (x # xs')" by (rule in_set_butlastD)
      moreover have "u \<noteq> t" using last_notin_butlast[of "x # xs'"] d1 u Cons tl by auto
      ultimately show "nxt ?L u = nxt L u" using d1 assms(3) Cons by auto
    qed
    show "\<forall>v\<in>set xs'. prv ?L v = prv L v" using d1 assms(3) psin Cons by auto
  qed
  have B: "path ?L x (xs' @ ys) r2"
  proof (cases ys)
    case Nil
    then show ?thesis using A by (simp add: ps_def)
  next
    case (Cons y ys')
    have "path ?L y ys' r2 = path L y ys' r2"
      apply (rule path_frame) using d2 assms(3) tin Cons \<open>xs = x # xs'\<close> ps_def by auto
    then show ?thesis using A p2 Cons by (simp add: path_append ps_def)
  qed
  have "path ?L r2 (xs @ ys) r2" using B ne Cons by simp
  then show ?thesis using L' d1 d2 l1 l2 assms(3) by (auto simp: dlist_def)
qed

lemma spliced_frame:
  "u \<notin> set (r1 # xs) \<Longrightarrow> u \<notin> set (r2 # ys) \<Longrightarrow>
   nxt (spliced r1 xs r2 ys L) u = nxt L u \<and> prv (spliced r1 xs r2 ys L) u = prv L u"
proof -
  assume a: "u \<notin> set (r1 # xs)" "u \<notin> set (r2 # ys)"
  have "xs \<noteq> [] \<Longrightarrow> last xs \<in> set xs" by simp
  moreover have "xs \<noteq> [] \<Longrightarrow> hd xs \<in> set xs" by simp
  moreover have "hd (ys @ [r2]) \<in> set (r2 # ys)" by (cases ys) auto
  ultimately show ?thesis using a by (auto simp: spliced_def)
qed

lemma live_spliced [simp]: "live (spliced r1 xs r2 ys L) = live L"
  by (simp add: spliced_def)

lemma live_cleared [simp]: "live (cleared r xs L) = live L"
  by (simp add: cleared_def)

lemma cleared_frame:
  "u \<noteq> r \<Longrightarrow> u \<notin> set xs \<Longrightarrow> nxt (cleared r xs L) u = nxt L u \<and> prv (cleared r xs L) u = prv L u"
  by (simp add: cleared_def)

lemma cleared_member:
  "u \<noteq> r \<Longrightarrow> u \<in> set xs \<Longrightarrow> nxt (cleared r xs L) u = None \<and> prv (cleared r xs L) u = None"
  by (simp add: cleared_def)

lemma mark_walkers_path:
  "path (wl st) a (map Walker ws) r \<Longrightarrow> Walker ` set ws \<subseteq> live (wl st) \<Longrightarrow> r \<notin> Walker ` set ws
   \<Longrightarrow> mark_walkers (nxt (wl st) a) (Some r) asit st = Some (marked ws asit st)"
proof (induction ws arbitrary: a st)
  case Nil
  then show ?case by (subst mark_walkers.simps) (simp add: marked_def)
next
  case (Cons w ws)
  let ?st = "st\<lparr>deleted := (deleted st)(w := True), held := (held st)(w := asit)\<rparr>"
  have "mark_walkers (nxt (wl ?st) (Walker w)) (Some r) asit ?st = Some (marked ws asit ?st)"
    by (rule Cons.IH) (use Cons.prems in auto)
  moreover have "marked ws asit ?st = marked (w # ws) asit st"
    by (auto simp: marked_def fun_eq_iff)
  ultimately show ?case using Cons.prems
    by (subst mark_walkers.simps)
       (auto simp: deref_def as_walker_def set_deleted_def set_held_def get_next_def)
qed

lemma mark_walkers_dlist:
  assumes "dlist (wl st) (ConnRoot c) (map Walker ws)"
  shows "mark_walkers (nxt (wl st) (ConnRoot c)) (Some (ConnRoot c)) asit st = Some (marked ws asit st)"
  using assms by (intro mark_walkers_path) (auto simp: dlist_def)



section \<open>The operations on well-formed signals\<close>

lemma inv_wlist: "sig_inv st s cs D W U \<Longrightarrow> c \<in> set cs \<union> D \<Longrightarrow> dlist (wl st) (ConnRoot c) (map Walker (W c))"
  by (simp add: sig_inv_def)

lemma inv_clist: "sig_inv st s cs D W U \<Longrightarrow> dlist (cl st) (SigRoot s) (map Conn cs)"
  by (simp add: sig_inv_def)

lemma inv_held: "sig_inv st s cs D W U \<Longrightarrow> c \<in> set cs \<union> D \<Longrightarrow> w \<in> set (W c) \<Longrightarrow> held st w = Some (Conn c)"
  by (simp add: sig_inv_def)

lemma inv_disjoint:
  "sig_inv st s cs D W U \<Longrightarrow> c \<in> set cs \<union> D \<Longrightarrow> c' \<in> set cs \<union> D \<Longrightarrow> c \<noteq> c' \<Longrightarrow> set (W c) \<inter> set (W c') = {}"
  using inv_held[of st s cs D W U c] inv_held[of st s cs D W U c'] by fastforce

lemma inv_live_conn: "sig_inv st s cs D W U \<Longrightarrow> c \<in> set cs \<union> D \<Longrightarrow> Conn c \<in> live (cl st)"
  by (auto simp: sig_inv_def)

lemma inv_live_walker: "sig_inv st s cs D W U \<Longrightarrow> Walker w \<in> live (wl st) \<longleftrightarrow> w \<in> parked cs W \<union> U"
  by (auto simp: sig_inv_def)

lemma inv_fresh: "sig_inv st s cs D W U \<Longrightarrow> Walker (wcount st) \<notin> live (wl st)"
  by (auto simp: sig_inv_def)

lemma parked_upd_in: "c \<in> set cs \<Longrightarrow> parked cs (W(c := ws)) = set ws \<union> (\<Union>c'\<in>set cs - {c}. set (W c'))"
  by (auto simp: parked_def split: if_splits)

lemma park_inv:
  assumes "sig_inv st s cs D W U" "c \<in> set cs"
  shows "\<exists>st'. park (Some (Conn c)) st = Some (wcount st, c, st')
           \<and> sig_inv st' s cs D (W(c := wcount st # W c)) U
           \<and> cl st' = cl st \<and> same_user st st' \<and> wcount st' = Suc (wcount st)
           \<and> \<not> deleted st' (wcount st) \<and> held st' (wcount st) = Some (Conn c)
           \<and> (\<forall>w. w \<noteq> wcount st \<longrightarrow> deleted st' w = deleted st w \<and> held st' w = held st w)"
proof -
  define d where "d = wcount st"
  define h where "h = hd (map Walker (W c) @ [ConnRoot c])"
  define L1 where "L1 = new_element (Walker d) (wl st)"
  define L2 where "L2 = L1\<lparr>nxt := (nxt L1)(ConnRoot c := Some (Walker d), Walker d := Some h),
                           prv := (prv L1)(Walker d := Some (ConnRoot c), h := Some (Walker d))\<rparr>"
  define st' where "st' = st\<lparr>wl := L2, held := (held st)(d := Some (Conn c)),
                      deleted := (deleted st)(d := False), wcount := Suc d\<rparr>"
  note I = assms(1)
  have fresh: "Walker d \<notin> live (wl st)" using inv_fresh[OF I] by (simp add: d_def)
  have dl: "dlist (wl st) (ConnRoot c) (map Walker (W c))" using inv_wlist[OF I] assms(2) by simp
  have dnot: "Walker d \<notin> set (ConnRoot c # map Walker (W c))"
    using dl fresh by (auto simp: dlist_def)
  have dl1: "dlist L1 (ConnRoot c) (map Walker (W c))"
    by (rule dlist_frame[OF dl]) (use dnot dl in \<open>auto simp: L1_def new_element_def dlist_def\<close>)
  have lv1: "Walker d \<in> live L1" by (simp add: L1_def new_element_def)
  have pf: "push_front (ConnRoot c) (Walker d) L1 = Some L2"
    unfolding L2_def h_def by (rule push_front_dlist[OF dl1 lv1 dnot])
  have dl2: "dlist L2 (ConnRoot c) (Walker d # map Walker (W c))"
    unfolding L2_def h_def by (rule dlist_push_front[OF dl1 lv1 dnot])
  have hin: "h \<in> set (ConnRoot c # map Walker (W c))" unfolding h_def by (cases "W c") auto
  have pk: "park (Some (Conn c)) st = Some (d, c, st')"
    using pf inv_live_conn[OF I, of c] assms(2)
    by (simp add: park_def Let_def set_held_def deref_def as_connection_def d_def[symmetric]
        L1_def[symmetric] new_element_def st'_def) (simp add: L1_def new_element_def)
  have lv2: "live L2 = insert (Walker d) (live (wl st))"
    by (simp add: L2_def L1_def new_element_def)
  have other: "dlist L2 (ConnRoot c') (map Walker (W c'))" if "c' \<in> set cs \<union> D" "c' \<noteq> c" for c'
  proof (rule dlist_frame[OF inv_wlist[OF I that(1)]])
    have dj: "set (W c) \<inter> set (W c') = {}" using inv_disjoint[OF I _ that(1)] assms(2) that(2) by auto
    have "Walker d \<notin> set (ConnRoot c' # map Walker (W c'))"
      using inv_wlist[OF I that(1)] fresh by (auto simp: dlist_def)
    moreover have "h \<notin> set (ConnRoot c' # map Walker (W c'))" using hin dj that(2) by auto
    ultimately show "\<forall>u\<in>set (ConnRoot c' # map Walker (W c')). nxt L2 u = nxt (wl st) u \<and> prv L2 u = prv (wl st) u"
      using that(2) by (auto simp: L2_def L1_def new_element_def)
    show "set (ConnRoot c' # map Walker (W c')) \<subseteq> live L2"
      using inv_wlist[OF I that(1)] lv2 by (auto simp: dlist_def)
  qed
  have pk_eq: "parked cs (W(c := d # W c)) = insert d (parked cs W)"
    using assms(2) by (auto simp: parked_def split: if_splits)
  have dU: "d \<notin> parked cs W \<union> U" using fresh inv_live_walker[OF I, of d] by simp
  have I': "sig_inv st' s cs D (W(c := d # W c)) U"
    unfolding sig_inv_def
  proof (intro conjI)
    show "dlist (cl st') (SigRoot s) (map Conn cs)" using I by (simp add: st'_def sig_inv_def)
    show "live (cl st') = insert (SigRoot s) (Conn ` (set cs \<union> D))" using I by (simp add: st'_def sig_inv_def)
    show "set cs \<inter> D = {}" using I by (simp add: sig_inv_def)
    show "\<forall>c'\<in>D. nxt (cl st') (Conn c') = None \<and> prv (cl st') (Conn c') = None \<and> (W(c := d # W c)) c' = []"
      using I assms(2) by (auto simp: st'_def sig_inv_def)
    show "\<forall>c'\<in>set cs \<union> D. (parent st' c' = None \<or> parent st' c' = Some s) \<and>
        dlist (wl st') (ConnRoot c') (map Walker ((W(c := d # W c)) c')) \<and>
        (\<forall>w\<in>set ((W(c := d # W c)) c'). held st' w = Some (Conn c'))"
    proof
      fix c' assume c': "c' \<in> set cs \<union> D"
      have "parent st' c' = None \<or> parent st' c' = Some s" using I c' by (auto simp: st'_def sig_inv_def)
      moreover have "dlist (wl st') (ConnRoot c') (map Walker ((W(c := d # W c)) c'))"
        using dl2 other[OF c'] by (cases "c' = c") (auto simp: st'_def)
      moreover have "\<forall>w\<in>set ((W(c := d # W c)) c'). held st' w = Some (Conn c')"
      proof
        fix w assume w: "w \<in> set ((W(c := d # W c)) c')"
        show "held st' w = Some (Conn c')"
        proof (cases "w = d")
          case True
          then have "c' = c" using w dU c' I
            by (cases "c' = c") (auto simp: parked_def sig_inv_def)
          then show ?thesis using True by (simp add: st'_def)
        next
          case False
          then have "w \<in> set (W c')" using w by (cases "c' = c") auto
          then show ?thesis using inv_held[OF I c'] False by (simp add: st'_def)
        qed
      qed
      ultimately show "(parent st' c' = None \<or> parent st' c' = Some s) \<and>
        dlist (wl st') (ConnRoot c') (map Walker ((W(c := d # W c)) c')) \<and>
        (\<forall>w\<in>set ((W(c := d # W c)) c'). held st' w = Some (Conn c'))" by blast
    qed
    show "live (wl st') = ConnRoot ` (set cs \<union> D) \<union> Walker ` (parked cs (W(c := d # W c)) \<union> U)"
      using I lv2 by (auto simp: st'_def pk_eq sig_inv_def)
    show "\<forall>w\<in>U. nxt (wl st') (Walker w) = None \<and> prv (wl st') (Walker w) = None \<and>
        w \<notin> parked cs (W(c := d # W c)) \<and> deleted st' w \<and> held st' w = Some (SigRoot s)"
    proof
      fix w assume w: "w \<in> U"
      then have wd: "w \<noteq> d" using dU by auto
      have wp: "w \<notin> parked cs W" using I w by (auto simp: sig_inv_def)
      then have "Walker w \<noteq> h" using hin assms(2) by (auto simp: parked_def)
      then show "nxt (wl st') (Walker w) = None \<and> prv (wl st') (Walker w) = None \<and>
        w \<notin> parked cs (W(c := d # W c)) \<and> deleted st' w \<and> held st' w = Some (SigRoot s)"
        using I w wd wp by (auto simp: st'_def L2_def L1_def new_element_def pk_eq sig_inv_def)
    qed
    show "\<forall>w\<in>parked cs (W(c := d # W c)) \<union> U. w < wcount st'"
    proof -
      have "\<forall>w\<in>parked cs W \<union> U. w < d" using I by (auto simp: d_def sig_inv_def)
      then show ?thesis by (fastforce simp: pk_eq st'_def intro: less_SucI)
    qed
  qed
  show ?thesis
    apply (rule exI[of _ st'])
    using pk I' by (auto simp: d_def st'_def same_user_def)
qed

lemma unpark_parked:
  assumes "sig_inv st s cs D W U" "c \<in> set cs" "W c = as @ d # bs"
  shows "\<exists>st'. unpark d st = Some st' \<and> sig_inv st' s cs D (W(c := as @ bs)) U
           \<and> cl st' = cl st \<and> same_user st st' \<and> wcount st' = wcount st
           \<and> deleted st' = deleted st \<and> held st' = held st"
proof -
  define p where "p = last (ConnRoot c # map Walker as)"
  define n where "n = hd (map Walker bs @ [ConnRoot c])"
  define L1 where "L1 = (wl st)\<lparr>nxt := (nxt (wl st))(p := Some n, Walker d := None),
                                 prv := (prv (wl st))(n := Some p, Walker d := None)\<rparr>"
  define L2 where "L2 = L1\<lparr>live := live L1 - {Walker d}\<rparr>"
  define st' where "st' = st\<lparr>wl := L2\<rparr>"
  note I = assms(1)
  have dl: "dlist (wl st) (ConnRoot c) (map Walker as @ Walker d # map Walker bs)"
    using inv_wlist[OF I, of c] assms(2,3) by simp
  have ul: "unlink (Walker d) (wl st) = Some (Some n, L1)"
    unfolding L1_def p_def n_def by (rule unlink_dlist[OF dl])
  have dl1: "dlist L1 (ConnRoot c) (map Walker as @ map Walker bs)"
    unfolding L1_def p_def n_def by (rule dlist_unlink[OF dl])
  have dist: "distinct (ConnRoot c # map Walker as @ Walker d # map Walker bs)"
    using dl by (simp add: dlist_def)
  have dl2: "dlist L2 (ConnRoot c) (map Walker (as @ bs))"
    using dl1 dist by (auto simp: dlist_def L2_def)
  have up: "unpark d st = Some st'"
    using ul by (simp add: unpark_def delete_element_def st'_def L2_def)
  have pin: "p \<in> set (ConnRoot c # map Walker as)" unfolding p_def by (rule last_in_set) simp
  have nin: "n \<in> set (ConnRoot c # map Walker bs)" unfolding n_def by (cases bs) auto
  have "d \<in> set (W c)" using assms(3) by simp
  then have dpk: "d \<in> parked cs W" using assms(2) by (auto simp: parked_def)
  have other: "dlist L2 (ConnRoot c') (map Walker (W c'))" if "c' \<in> set cs \<union> D" "c' \<noteq> c" for c'
  proof (rule dlist_frame[OF inv_wlist[OF I that(1)]])
    have dj: "set (W c) \<inter> set (W c') = {}" using inv_disjoint[OF I _ that(1)] assms(2) that(2) by auto
    then have "Walker d \<notin> set (ConnRoot c' # map Walker (W c'))" using assms(3) by auto
    moreover have "p \<notin> set (ConnRoot c' # map Walker (W c'))" using pin dj that(2) assms(3) by auto
    moreover have "n \<notin> set (ConnRoot c' # map Walker (W c'))" using nin dj that(2) assms(3) by auto
    ultimately show "\<forall>u\<in>set (ConnRoot c' # map Walker (W c')). nxt L2 u = nxt (wl st) u \<and> prv L2 u = prv (wl st) u"
      by (auto simp: L2_def L1_def)
    show "set (ConnRoot c' # map Walker (W c')) \<subseteq> live L2"
      using inv_wlist[OF I that(1)] \<open>Walker d \<notin> set (ConnRoot c' # map Walker (W c'))\<close>
      by (auto simp: dlist_def L2_def L1_def)
  qed
  have dnot: "d \<notin> set (as @ bs)" using dist by auto
  have pk_eq: "parked cs (W(c := as @ bs)) = parked cs W - {d}"
  proof -
    have nd: "d \<notin> set (W c')" if "c' \<in> set cs" "c' \<noteq> c" for c'
      using inv_disjoint[OF I, of c c'] that assms(2,3) by auto
    have "(w \<in> set ((W(c := as @ bs)) c')) = (w \<in> set (W c') \<and> w \<noteq> d)" if "c' \<in> set cs" for w c'
      using nd[OF that] dnot assms(3) by (cases "c' = c") auto
    then show ?thesis unfolding parked_def by blast
  qed
  have I': "sig_inv st' s cs D (W(c := as @ bs)) U"
    unfolding sig_inv_def
  proof (intro conjI)
    show "dlist (cl st') (SigRoot s) (map Conn cs)" using I by (simp add: st'_def sig_inv_def)
    show "live (cl st') = insert (SigRoot s) (Conn ` (set cs \<union> D))" using I by (simp add: st'_def sig_inv_def)
    show "set cs \<inter> D = {}" using I by (simp add: sig_inv_def)
    show "\<forall>c'\<in>D. nxt (cl st') (Conn c') = None \<and> prv (cl st') (Conn c') = None \<and> (W(c := as @ bs)) c' = []"
      using I assms(2) by (auto simp: st'_def sig_inv_def)
    show "\<forall>c'\<in>set cs \<union> D. (parent st' c' = None \<or> parent st' c' = Some s) \<and>
        dlist (wl st') (ConnRoot c') (map Walker ((W(c := as @ bs)) c')) \<and>
        (\<forall>w\<in>set ((W(c := as @ bs)) c'). held st' w = Some (Conn c'))"
    proof
      fix c' assume c': "c' \<in> set cs \<union> D"
      have "parent st' c' = None \<or> parent st' c' = Some s" using I c' by (auto simp: st'_def sig_inv_def)
      moreover have "dlist (wl st') (ConnRoot c') (map Walker ((W(c := as @ bs)) c'))"
        using dl2 other[OF c'] by (cases "c' = c") (auto simp: st'_def)
      moreover have "\<forall>w\<in>set ((W(c := as @ bs)) c'). held st' w = Some (Conn c')"
        using inv_held[OF I c'] assms(3) by (cases "c' = c") (auto simp: st'_def)
      ultimately show "(parent st' c' = None \<or> parent st' c' = Some s) \<and>
        dlist (wl st') (ConnRoot c') (map Walker ((W(c := as @ bs)) c')) \<and>
        (\<forall>w\<in>set ((W(c := as @ bs)) c'). held st' w = Some (Conn c'))" by blast
    qed
    show "live (wl st') = ConnRoot ` (set cs \<union> D) \<union> Walker ` (parked cs (W(c := as @ bs)) \<union> U)"
    proof -
      have "d \<notin> U" using I dpk by (auto simp: sig_inv_def)
      then show ?thesis using I by (auto simp: st'_def L2_def L1_def pk_eq sig_inv_def)
    qed
    show "\<forall>w\<in>U. nxt (wl st') (Walker w) = None \<and> prv (wl st') (Walker w) = None \<and>
        w \<notin> parked cs (W(c := as @ bs)) \<and> deleted st' w \<and> held st' w = Some (SigRoot s)"
    proof
      fix w assume w: "w \<in> U"
      have wp: "w \<notin> parked cs W" using I w by (auto simp: sig_inv_def)
      then have "Walker w \<noteq> p" "Walker w \<noteq> n" using pin nin assms(2,3) by (auto simp: parked_def)
      then show "nxt (wl st') (Walker w) = None \<and> prv (wl st') (Walker w) = None \<and>
        w \<notin> parked cs (W(c := as @ bs)) \<and> deleted st' w \<and> held st' w = Some (SigRoot s)"
        using I w wp by (auto simp: st'_def L2_def L1_def pk_eq sig_inv_def)
    qed
    show "\<forall>w\<in>parked cs (W(c := as @ bs)) \<union> U. w < wcount st'"
      using I by (auto simp: pk_eq st'_def sig_inv_def)
  qed
  show ?thesis
    apply (rule exI[of _ st'])
    using up I' by (auto simp: st'_def same_user_def)
qed

lemma unpark_unparked:
  assumes "sig_inv st s cs D W U" "d \<in> U"
  shows "\<exists>st'. unpark d st = Some st' \<and> sig_inv st' s cs D W (U - {d})
           \<and> cl st' = cl st \<and> same_user st st' \<and> wcount st' = wcount st
           \<and> deleted st' = deleted st \<and> held st' = held st"
proof -
  define st' where "st' = st\<lparr>wl := (wl st)\<lparr>live := live (wl st) - {Walker d}\<rparr>\<rparr>"
  note I = assms(1)
  have f: "nxt (wl st) (Walker d) = None" "prv (wl st) (Walker d) = None" "Walker d \<in> live (wl st)"
    "d \<notin> parked cs W"
    using I assms(2) by (auto simp: sig_inv_def)
  have up: "unpark d st = Some st'"
    using unlink_unlinked[OF f(3,1,2)] by (simp add: unpark_def delete_element_def st'_def)
  have nl: "Walker d \<notin> set (ConnRoot c' # map Walker (W c'))" if "c' \<in> set cs \<union> D" for c'
    using that f(4) I by (auto simp: parked_def sig_inv_def)
  have I': "sig_inv st' s cs D W (U - {d})"
    unfolding sig_inv_def
  proof (intro conjI)
    show "dlist (cl st') (SigRoot s) (map Conn cs)" using I by (simp add: st'_def sig_inv_def)
    show "live (cl st') = insert (SigRoot s) (Conn ` (set cs \<union> D))" using I by (simp add: st'_def sig_inv_def)
    show "set cs \<inter> D = {}" using I by (simp add: sig_inv_def)
    show "\<forall>c'\<in>D. nxt (cl st') (Conn c') = None \<and> prv (cl st') (Conn c') = None \<and> W c' = []"
      using I by (auto simp: st'_def sig_inv_def)
    show "\<forall>c'\<in>set cs \<union> D. (parent st' c' = None \<or> parent st' c' = Some s) \<and>
        dlist (wl st') (ConnRoot c') (map Walker (W c')) \<and>
        (\<forall>w\<in>set (W c'). held st' w = Some (Conn c'))"
    proof
      fix c' assume c': "c' \<in> set cs \<union> D"
      have "dlist (wl st') (ConnRoot c') (map Walker (W c'))"
        by (rule dlist_frame[OF inv_wlist[OF I c']])
           (use nl[OF c'] inv_wlist[OF I c'] in \<open>auto simp: st'_def dlist_def\<close>)
      then show "(parent st' c' = None \<or> parent st' c' = Some s) \<and>
        dlist (wl st') (ConnRoot c') (map Walker (W c')) \<and>
        (\<forall>w\<in>set (W c'). held st' w = Some (Conn c'))"
        using I c' by (auto simp: st'_def sig_inv_def)
    qed
    show "live (wl st') = ConnRoot ` (set cs \<union> D) \<union> Walker ` (parked cs W \<union> (U - {d}))"
      using I f(4) by (auto simp: st'_def sig_inv_def)
    show "\<forall>w\<in>U - {d}. nxt (wl st') (Walker w) = None \<and> prv (wl st') (Walker w) = None \<and>
        w \<notin> parked cs W \<and> deleted st' w \<and> held st' w = Some (SigRoot s)"
      using I by (auto simp: st'_def sig_inv_def)
    show "\<forall>w\<in>parked cs W \<union> (U - {d}). w < wcount st'"
      using I by (auto simp: st'_def sig_inv_def)
  qed
  show ?thesis
    apply (rule exI[of _ st'])
    using up I' by (auto simp: st'_def same_user_def)
qed

lemma inv_next:
  assumes "sig_inv st s cs D W U" "cs = pre @ c # rest"
  shows "nxt (cl st) (Conn c) = Some (hd (map Conn rest @ [SigRoot s]))"
proof -
  have "dlist (cl st) (SigRoot s) (map Conn pre @ Conn c # map Conn rest)"
    using inv_clist[OF assms(1)] assms(2) by simp
  from dlist_nxt_prv(1)[OF this] show ?thesis .
qed

lemma inv_trace_upd: "sig_inv (st\<lparr>trace := t\<rparr>) s cs D W U = sig_inv st s cs D W U"
  by (simp add: sig_inv_def)

lemma inv_flags_upd: "sig_inv (st\<lparr>flags := t\<rparr>) s cs D W U = sig_inv st s cs D W U"
  by (simp add: sig_inv_def)

lemma run_quiet: "quiet (flags st) f \<Longrightarrow> run m f st = Finished st"
  by (auto simp: quiet_def)

lemma step_quiet:
  assumes "sig_inv st s cs D W U" "c \<in> set cs" "slot st c = Some f" "quiet (flags st) f"
  shows "\<exists>st'. emit_loop (Suc n) s (Some (Conn c)) st = emit_loop n s (nxt (cl st) (Conn c)) st'
           \<and> sig_inv st' s cs D W U \<and> cl st' = cl st \<and> slot st' = slot st \<and> flags st' = flags st
           \<and> parent st' = parent st \<and> trace st' = trace st @ [c] \<and> wcount st' = Suc (wcount st)
           \<and> (\<forall>w. w \<noteq> wcount st \<longrightarrow> deleted st' w = deleted st w \<and> held st' w = held st w)"
proof -
  define d where "d = wcount st"
  from park_inv[OF assms(1,2)] obtain st1 where
    pk: "park (Some (Conn c)) st = Some (d, c, st1)" and
    I1: "sig_inv st1 s cs D (W(c := d # W c)) U" and
    f1: "cl st1 = cl st" "same_user st st1" "wcount st1 = Suc d" "\<not> deleted st1 d"
      "held st1 d = Some (Conn c)"
      "\<forall>w. w \<noteq> d \<longrightarrow> deleted st1 w = deleted st w \<and> held st1 w = held st w"
    unfolding d_def by blast
  define st2 where "st2 = st1\<lparr>trace := trace st1 @ [c]\<rparr>"
  have I2: "sig_inv st2 s cs D (W(c := d # W c)) U" using I1 by (simp add: st2_def inv_trace_upd)
  have "(W(c := d # W c)) c = [] @ d # W c" by simp
  from unpark_parked[OF I2 assms(2) this] obtain st3 where
    up: "unpark d st2 = Some st3" and
    I3: "sig_inv st3 s cs D ((W(c := d # W c))(c := [] @ W c)) U" and
    f3: "cl st3 = cl st2" "same_user st2 st3" "wcount st3 = wcount st2"
      "deleted st3 = deleted st2" "held st3 = held st2"
    by blast
  have I3': "sig_inv st3 s cs D W U" using I3 by simp
  have lvc: "Conn c \<in> live (cl st1)" using inv_live_conn[OF I1] assms(2) by simp
  have lvd: "Walker d \<in> live (wl st2)"
    using inv_live_walker[OF I2, of d] assms(2) by (auto simp: parked_def)
  have sl: "get_slot st1 c = Some (Some f)"
    using lvc f1(2) assms(3) by (simp add: get_slot_def same_user_def)
  have rq: "run n f st2 = Finished st2"
    by (rule run_quiet) (use assms(4) f1(2) in \<open>simp add: st2_def same_user_def\<close>)
  have rs: "resume d (Some (Conn c)) st2 = Some (nxt (cl st) (Conn c), st3)"
    using up lvd lvc f1 by (simp add: resume_def get_deleted_def deref_def get_next_def st2_def)
  have "emit_loop (Suc n) s (Some (Conn c)) st = emit_loop n s (nxt (cl st) (Conn c)) st3"
    using pk sl rs rq by (simp add: end_list_def st2_def)
  moreover have "cl st3 = cl st" "slot st3 = slot st" "flags st3 = flags st" "parent st3 = parent st"
    "trace st3 = trace st @ [c]" "wcount st3 = Suc (wcount st)"
    using f1 f3 by (auto simp: st2_def same_user_def d_def)
  moreover have "\<forall>w. w \<noteq> wcount st \<longrightarrow> deleted st3 w = deleted st w \<and> held st3 w = held st w"
    using f1(6) f3(4,5) by (simp add: st2_def d_def)
  ultimately show ?thesis using I3' by blast
qed

lemma step_noop:
  assumes "sig_inv st s cs D W U" "c \<in> set cs" "slot st c = Some []"
  shows "\<exists>st'. emit_loop (Suc n) s (Some (Conn c)) st = emit_loop n s (nxt (cl st) (Conn c)) st'
           \<and> sig_inv st' s cs D W U \<and> cl st' = cl st \<and> slot st' = slot st \<and> flags st' = flags st
           \<and> parent st' = parent st \<and> trace st' = trace st @ [c] \<and> wcount st' = Suc (wcount st)
           \<and> (\<forall>w. w \<noteq> wcount st \<longrightarrow> deleted st' w = deleted st w \<and> held st' w = held st w)"
  by (rule step_quiet[OF assms]) (simp add: quiet_def)

lemma loop_quiet:
  assumes "sig_inv st s cs D W U" "cs = pre @ rest"
    "\<forall>c\<in>set rest. \<exists>f. slot st c = Some f \<and> quiet (flags st) f"
    "length rest < n"
  shows "\<exists>st'. emit_loop n s (Some (hd (map Conn rest @ [SigRoot s]))) st = Finished st'
           \<and> sig_inv st' s cs D W U \<and> cl st' = cl st \<and> slot st' = slot st \<and> flags st' = flags st
           \<and> parent st' = parent st \<and> trace st' = trace st @ rest
           \<and> wcount st \<le> wcount st'
           \<and> (\<forall>w. w < wcount st \<longrightarrow> deleted st' w = deleted st w \<and> held st' w = held st w)"
  using assms
proof (induction rest arbitrary: pre st n)
  case Nil
  then obtain m where "n = Suc m" by (cases n) auto
  then show ?case using Nil by (simp add: end_list_def)
next
  case (Cons c rest)
  then obtain m where n: "n = Suc m" by (cases n) auto
  have cin: "c \<in> set cs" using Cons.prems(2) by simp
  from Cons.prems(3) obtain f where f: "slot st c = Some f" "quiet (flags st) f" by auto
  from step_quiet[OF Cons.prems(1) cin f, of m] obtain st1 where
    e: "emit_loop (Suc m) s (Some (Conn c)) st = emit_loop m s (nxt (cl st) (Conn c)) st1" and
    I1: "sig_inv st1 s cs D W U" and
    f1: "cl st1 = cl st" "slot st1 = slot st" "flags st1 = flags st" "parent st1 = parent st"
      "trace st1 = trace st @ [c]" "wcount st1 = Suc (wcount st)"
      "\<forall>w. w \<noteq> wcount st \<longrightarrow> deleted st1 w = deleted st w \<and> held st1 w = held st w"
    by auto
  have nx: "nxt (cl st) (Conn c) = Some (hd (map Conn rest @ [SigRoot s]))"
    by (rule inv_next[OF Cons.prems(1,2)])
  have "cs = (pre @ [c]) @ rest" using Cons.prems(2) by simp
  from Cons.IH[OF I1 this, of m] Cons.prems(3,4) f1(2,3) n obtain st' where
    r: "emit_loop m s (Some (hd (map Conn rest @ [SigRoot s]))) st1 = Finished st'"
      "sig_inv st' s cs D W U" "cl st' = cl st1" "slot st' = slot st1" "flags st' = flags st1"
      "parent st' = parent st1" "trace st' = trace st1 @ rest" "wcount st1 \<le> wcount st'"
      "\<forall>w. w < wcount st1 \<longrightarrow> deleted st' w = deleted st1 w \<and> held st' w = held st1 w"
    by auto
  show ?case
    apply (rule exI[of _ st'])
    using e nx r f1 n by auto
qed

lemma loop_noop:
  assumes "sig_inv st s cs D W U" "cs = pre @ rest" "\<forall>c\<in>set rest. slot st c = Some []"
    "length rest < n"
  shows "\<exists>st'. emit_loop n s (Some (hd (map Conn rest @ [SigRoot s]))) st = Finished st'
           \<and> sig_inv st' s cs D W U \<and> cl st' = cl st \<and> slot st' = slot st \<and> flags st' = flags st
           \<and> parent st' = parent st \<and> trace st' = trace st @ rest
           \<and> wcount st \<le> wcount st'
           \<and> (\<forall>w. w < wcount st \<longrightarrow> deleted st' w = deleted st w \<and> held st' w = held st w)"
  by (rule loop_quiet[OF assms(1,2) _ assms(4)]) (use assms(3) in \<open>simp add: quiet_def\<close>)

lemma parked_fresh: "c \<notin> set cs \<Longrightarrow> parked cs (W(c := ws)) = parked cs W"
  unfolding parked_def by (rule SUP_cong) auto

lemma parked_Cons: "parked (c # cs) W = set (W c) \<union> parked cs W"
  by (auto simp: parked_def)

lemma connect_inv:
  assumes "sig_inv st s cs D W U" "c \<notin> set cs \<union> D"
  shows "\<exists>st'. connect s c f st = Some st' \<and> sig_inv st' s (c # cs) D (W(c := [])) U
           \<and> slot st' = (slot st)(c := Some f) \<and> parent st' = (parent st)(c := Some s)
           \<and> flags st' = flags st \<and> trace st' = trace st \<and> wcount st' = wcount st
           \<and> deleted st' = deleted st \<and> held st' = held st"
proof -
  define h where "h = hd (map Conn cs @ [SigRoot s])"
  define C1 where "C1 = new_element (Conn c) (cl st)"
  define C2 where "C2 = C1\<lparr>nxt := (nxt C1)(SigRoot s := Some (Conn c), Conn c := Some h),
                           prv := (prv C1)(Conn c := Some (SigRoot s), h := Some (Conn c))\<rparr>"
  define W1 where "W1 = list_init (ConnRoot c) (wl st)"
  define st' where "st' = st\<lparr>cl := C2, wl := W1, parent := (parent st)(c := Some s),
                      slot := (slot st)(c := Some f)\<rparr>"
  note I = assms(1)
  have fresh: "Conn c \<notin> live (cl st)" "ConnRoot c \<notin> live (wl st)"
    using I assms(2) by (auto simp: sig_inv_def)
  have dl: "dlist (cl st) (SigRoot s) (map Conn cs)" by (rule inv_clist[OF I])
  have cnot: "Conn c \<notin> set (SigRoot s # map Conn cs)" using assms(2) by auto
  have dl1: "dlist C1 (SigRoot s) (map Conn cs)"
    by (rule dlist_frame[OF dl]) (use cnot dl in \<open>auto simp: C1_def new_element_def dlist_def\<close>)
  have lv1: "Conn c \<in> live C1" by (simp add: C1_def new_element_def)
  have pf: "push_front (SigRoot s) (Conn c) C1 = Some C2"
    unfolding C2_def h_def by (rule push_front_dlist[OF dl1 lv1 cnot])
  have dl2: "dlist C2 (SigRoot s) (Conn c # map Conn cs)"
    unfolding C2_def h_def by (rule dlist_push_front[OF dl1 lv1 cnot])
  have hin: "h \<in> set (SigRoot s # map Conn cs)" unfolding h_def by (cases cs) auto
  have cn: "connect s c f st = Some st'"
    using pf fresh
    by (simp add: connect_def new_connection_def C1_def[symmetric] W1_def[symmetric] st'_def)
  have I': "sig_inv st' s (c # cs) D (W(c := [])) U"
    unfolding sig_inv_def
  proof (intro conjI)
    show "dlist (cl st') (SigRoot s) (map Conn (c # cs))" using dl2 by (simp add: st'_def)
    show "live (cl st') = insert (SigRoot s) (Conn ` (set (c # cs) \<union> D))"
      using I by (auto simp: st'_def C2_def C1_def new_element_def sig_inv_def)
    show "set (c # cs) \<inter> D = {}" using I assms(2) by (auto simp: sig_inv_def)
    show "\<forall>c'\<in>D. nxt (cl st') (Conn c') = None \<and> prv (cl st') (Conn c') = None \<and> (W(c := [])) c' = []"
    proof
      fix c' assume c': "c' \<in> D"
      then have "Conn c' \<noteq> h" "c' \<noteq> c" using hin I assms(2) by (auto simp: sig_inv_def)
      then show "nxt (cl st') (Conn c') = None \<and> prv (cl st') (Conn c') = None \<and> (W(c := [])) c' = []"
        using I c' by (auto simp: st'_def C2_def C1_def new_element_def sig_inv_def)
    qed
    show "\<forall>c'\<in>set (c # cs) \<union> D. (parent st' c' = None \<or> parent st' c' = Some s) \<and>
        dlist (wl st') (ConnRoot c') (map Walker ((W(c := [])) c')) \<and>
        (\<forall>w\<in>set ((W(c := [])) c'). held st' w = Some (Conn c'))"
    proof
      fix c' assume c': "c' \<in> set (c # cs) \<union> D"
      show "(parent st' c' = None \<or> parent st' c' = Some s) \<and>
        dlist (wl st') (ConnRoot c') (map Walker ((W(c := [])) c')) \<and>
        (\<forall>w\<in>set ((W(c := [])) c'). held st' w = Some (Conn c'))"
      proof (cases "c' = c")
        case True
        then show ?thesis by (simp add: st'_def W1_def list_init_def dlist_def)
      next
        case False
        then have c'': "c' \<in> set cs \<union> D" using c' by auto
        have "dlist W1 (ConnRoot c') (map Walker (W c'))"
          by (rule dlist_frame[OF inv_wlist[OF I c'']])
             (use False inv_wlist[OF I c''] in \<open>auto simp: W1_def list_init_def dlist_def\<close>)
        then show ?thesis using False I c'' by (auto simp: st'_def sig_inv_def)
      qed
    qed
    have pk: "parked (c # cs) (W(c := [])) = parked cs W"
      using assms(2) by (simp add: parked_Cons parked_fresh)
    show "live (wl st') = ConnRoot ` (set (c # cs) \<union> D) \<union> Walker ` (parked (c # cs) (W(c := [])) \<union> U)"
      using I by (auto simp: pk st'_def W1_def list_init_def sig_inv_def)
    show "\<forall>w\<in>U. nxt (wl st') (Walker w) = None \<and> prv (wl st') (Walker w) = None \<and>
        w \<notin> parked (c # cs) (W(c := [])) \<and> deleted st' w \<and> held st' w = Some (SigRoot s)"
      using I by (auto simp: pk st'_def W1_def list_init_def sig_inv_def)
    show "\<forall>w\<in>parked (c # cs) (W(c := [])) \<union> U. w < wcount st'"
      using I by (auto simp: pk st'_def sig_inv_def)
  qed
  show ?thesis
    apply (rule exI[of _ st'])
    using cn I' by (auto simp: st'_def)
qed

lemma connect_all_inv:
  assumes "sig_inv st s cs D W U" "distinct (map fst ks)" "fst ` set ks \<inter> (set cs \<union> D) = {}"
  shows "\<exists>st'. connect_all s ks st = Some st'
           \<and> sig_inv st' s (rev (map fst ks) @ cs) D (\<lambda>c. if c \<in> fst ` set ks then [] else W c) U
           \<and> (\<forall>k\<in>set ks. slot st' (fst k) = Some (snd k))
           \<and> (\<forall>c. c \<notin> fst ` set ks \<longrightarrow> slot st' c = slot st c)
           \<and> flags st' = flags st \<and> trace st' = trace st \<and> wcount st' = wcount st
           \<and> (\<forall>k\<in>set ks. parent st' (fst k) = Some s)
           \<and> (\<forall>c. c \<notin> fst ` set ks \<longrightarrow> parent st' c = parent st c)"
  using assms
proof (induction ks arbitrary: st cs W)
  case Nil
  then show ?case by simp
next
  case (Cons k ks)
  obtain c f where k: "k = (c, f)" by (cases k) auto
  have cf: "c \<notin> set cs \<union> D" using Cons.prems(3) k by auto
  from connect_inv[OF Cons.prems(1) cf, of f] obtain st1 where
    c1: "connect s c f st = Some st1" and I1: "sig_inv st1 s (c # cs) D (W(c := [])) U" and
    f1: "slot st1 = (slot st)(c := Some f)" "flags st1 = flags st" "trace st1 = trace st"
      "wcount st1 = wcount st" "parent st1 = (parent st)(c := Some s)"
    by blast
  have d: "distinct (map fst ks)" and nk: "c \<notin> fst ` set ks" using Cons.prems(2) k by auto
  have dj: "fst ` set ks \<inter> (set (c # cs) \<union> D) = {}" using Cons.prems(2,3) k by auto
  from Cons.IH[OF I1 d dj] obtain st' where
    r: "connect_all s ks st1 = Some st'"
      "sig_inv st' s (rev (map fst ks) @ c # cs) D (\<lambda>c'. if c' \<in> fst ` set ks then [] else (W(c := [])) c') U"
      "\<forall>k\<in>set ks. slot st' (fst k) = Some (snd k)"
      "\<forall>c. c \<notin> fst ` set ks \<longrightarrow> slot st' c = slot st1 c"
      "flags st' = flags st1" "trace st' = trace st1" "wcount st' = wcount st1"
      "\<forall>k\<in>set ks. parent st' (fst k) = Some s"
      "\<forall>c. c \<notin> fst ` set ks \<longrightarrow> parent st' c = parent st1 c"
    by blast
  have weq: "(\<lambda>c'. if c' \<in> fst ` set ks then [] else (W(c := [])) c')
     = (\<lambda>c'. if c' \<in> fst ` set (k # ks) then [] else W c')"
    using k by (auto simp: fun_eq_iff)
  show ?case
    apply (rule exI[of _ st'])
    using c1 r f1 nk k weq by auto
qed

lemma new_signal_inv:
  "\<exists>st. new_signal s heap0 = Some st \<and> sig_inv st s [] {} (\<lambda>c. []) {} \<and> slot st = (\<lambda>c. None)
     \<and> trace st = [] \<and> flags st = {}"
  by (simp add: new_signal_def heap0_def sig_inv_def list_init_def dlist_def parked_def)

lemma emit_begin:
  assumes "sig_inv st s cs D W U"
  shows "emit n s st = (if cs = [] then Finished st else emit_loop n s (Some (Conn (hd cs))) st)"
proof -
  have r: "SigRoot s \<in> live (cl st)" "nxt (cl st) (SigRoot s) = Some (hd (map Conn cs @ [SigRoot s]))"
    using dlist_hd[OF inv_clist[OF assms]] by auto
  show ?thesis using r by (cases cs) (auto simp: empty_list_def begin_list_def get_next_def)
qed

lemma sig0_inv: "new_signal 0 heap0 = Some sig0 \<and> sig_inv sig0 0 [] {} (\<lambda>c. []) {}"
  by (simp add: new_signal_def heap0_def sig0_def sig_inv_def list_init_def dlist_def parked_def)

lemma disconnect_unfold:
  assumes I: "sig_inv st s cs D W U" and cs: "cs = as @ X # bs" and par: "parent st X = Some s"
  defines "p \<equiv> last (SigRoot s # map Conn as)" and "n \<equiv> hd (map Conn bs @ [SigRoot s])"
  defines "C1 \<equiv> (cl st)\<lparr>nxt := (nxt (cl st))(p := Some n, Conn X := None),
                         prv := (prv (cl st))(n := Some p, Conn X := None)\<rparr>"
  defines "st2 \<equiv> marked (W X) (Some n) (st\<lparr>cl := C1\<rparr>)"
  shows "disconnect X st = Some (st2\<lparr>wl :=
           (case bs of [] \<Rightarrow> cleared (ConnRoot X) (map Walker (W X)) (wl st)
            | b # bs' \<Rightarrow> spliced (ConnRoot X) (map Walker (W X)) (ConnRoot b) (map Walker (W b)) (wl st))\<rparr>)"
proof -
  have dl: "dlist (cl st) (SigRoot s) (map Conn as @ Conn X # map Conn bs)"
    using inv_clist[OF I] cs by simp
  have ul: "unlink (Conn X) (cl st) = Some (Some n, C1)"
    unfolding C1_def p_def n_def by (rule unlink_dlist[OF dl])
  have Xin: "X \<in> set cs \<union> D" using cs by simp
  have wlX: "dlist (wl st) (ConnRoot X) (map Walker (W X))" by (rule inv_wlist[OF I Xin])
  have lvX: "Conn X \<in> live C1" using inv_live_conn[OF I Xin] by (simp add: C1_def)
  have bg: "begin_list (ConnRoot X) (wl st) = Some (nxt (wl st) (ConnRoot X))"
    using dlist_hd(4)[OF wlX] by (simp add: begin_list_def get_next_def)
  have mk: "mark_walkers (nxt (wl st) (ConnRoot X)) (Some (ConnRoot X)) (Some n) (st\<lparr>cl := C1\<rparr>) = Some st2"
    unfolding st2_def using mark_walkers_dlist[of "st\<lparr>cl := C1\<rparr>" X "W X" "Some n"] wlX by simp
  have gp: "get_parent st2 X = Some s"
    using lvX par by (simp add: get_parent_def st2_def marked_def)
  have wl2: "wl st2 = wl st" by (simp add: st2_def marked_def)
  show ?thesis
  proof (cases bs)
    case Nil
    then have n: "n = SigRoot s" by (simp add: n_def)
    have "clear (ConnRoot X) (wl st) = Some (cleared (ConnRoot X) (map Walker (W X)) (wl st))"
      by (rule clear_dlist[OF wlX])
    then show ?thesis using ul bg mk gp wl2 n Nil
      by (simp add: disconnect_def end_list_def)
  next
    case (Cons b bs')
    then have n: "n = Conn b" by (simp add: n_def)
    have bin: "b \<in> set cs \<union> D" using cs Cons by simp
    have wlb: "dlist (wl st) (ConnRoot b) (map Walker (W b))" by (rule inv_wlist[OF I bin])
    have bX: "b \<noteq> X" using dl Cons by (auto simp: dlist_def)
    have dj: "set (ConnRoot X # map Walker (W X)) \<inter> set (ConnRoot b # map Walker (W b)) = {}"
      using inv_disjoint[OF I Xin bin] bX by auto
    have bgb: "begin_list (ConnRoot b) (wl st) = Some (Some (hd (map Walker (W b) @ [ConnRoot b])))"
      using dlist_hd(1,4)[OF wlb] by (simp add: begin_list_def get_next_def)
    have bgX: "begin_list (ConnRoot X) (wl st) = Some (Some (hd (map Walker (W X) @ [ConnRoot X])))"
      using dlist_hd(1,4)[OF wlX] by (simp add: begin_list_def get_next_def)
    have sp: "splice (Some (hd (map Walker (W b) @ [ConnRoot b]))) (Some (hd (map Walker (W X) @ [ConnRoot X])))
        (Some (ConnRoot X)) (wl st) = Some (spliced (ConnRoot X) (map Walker (W X)) (ConnRoot b) (map Walker (W b)) (wl st))"
      by (rule splice_whole[OF wlX wlb dj])
    show ?thesis using ul bg mk gp wl2 n Cons bgb bgX sp
      by (simp add: disconnect_def end_list_def deref_def as_connection_def)
  qed
qed

lemma parked_append: "parked (as @ bs) W = parked as W \<union> parked bs W"
  by (auto simp: parked_def)

lemma parked_cong: "(\<And>c. c \<in> set cs \<Longrightarrow> W c = W' c) \<Longrightarrow> parked cs W = parked cs W'"
  by (auto simp: parked_def)

lemma inv_distinct: "sig_inv st s cs D W U \<Longrightarrow> distinct cs"
  using inv_clist[of st s cs D W U] by (auto simp: dlist_def distinct_map)

lemma disconnect_inv:
  assumes I: "sig_inv st s cs D W U" and cs: "cs = as @ X # bs" and par: "parent st X = Some s"
  shows "\<exists>st'. disconnect X st = Some st'
           \<and> sig_inv st' s (as @ bs) (insert X D) (disc_W X bs W) (disc_U X bs W U)
           \<and> same_user st st' \<and> wcount st' = wcount st
           \<and> (\<forall>w. deleted st' w = (w \<in> set (W X) \<or> deleted st w))
           \<and> (\<forall>w. held st' w = (if w \<in> set (W X) then Some (hd (map Conn bs @ [SigRoot s])) else held st w))"
proof -
  define p where "p = last (SigRoot s # map Conn as)"
  define n where "n = hd (map Conn bs @ [SigRoot s])"
  define C1 where "C1 = (cl st)\<lparr>nxt := (nxt (cl st))(p := Some n, Conn X := None),
                         prv := (prv (cl st))(n := Some p, Conn X := None)\<rparr>"
  define WL where "WL = (case bs of [] \<Rightarrow> cleared (ConnRoot X) (map Walker (W X)) (wl st)
            | b # bs' \<Rightarrow> spliced (ConnRoot X) (map Walker (W X)) (ConnRoot b) (map Walker (W b)) (wl st))"
  define st' where "st' = (marked (W X) (Some n) (st\<lparr>cl := C1\<rparr>))\<lparr>wl := WL\<rparr>"
  have dc: "disconnect X st = Some st'"
    unfolding st'_def WL_def C1_def p_def n_def by (rule disconnect_unfold[OF I cs par])
  have f: "cl st' = C1" "wl st' = WL" "parent st' = parent st" "slot st' = slot st"
    "flags st' = flags st" "trace st' = trace st" "wcount st' = wcount st"
    "\<And>w. deleted st' w = (w \<in> set (W X) \<or> deleted st w)"
    "\<And>w. held st' w = (if w \<in> set (W X) then Some n else held st w)"
    by (auto simp: st'_def marked_def)
  have dl: "dlist (cl st) (SigRoot s) (map Conn as @ Conn X # map Conn bs)"
    using inv_clist[OF I] cs by simp
  have dist: "distinct (as @ X # bs)"
    using inv_distinct[OF I] cs by simp
  have dl1: "dlist C1 (SigRoot s) (map Conn (as @ bs))"
    using dlist_unlink[OF dl] by (simp add: C1_def p_def n_def)
  have pin: "p \<in> set (SigRoot s # map Conn as)" unfolding p_def by (rule last_in_set) simp
  have nin: "n \<in> set (SigRoot s # map Conn bs)" unfolding n_def by (cases bs) auto
  have Xin: "X \<in> set cs \<union> D" using cs by simp
  have D: "set cs \<inter> D = {}" "\<And>c. c \<in> D \<Longrightarrow> nxt (cl st) (Conn c) = None \<and> prv (cl st) (Conn c) = None \<and> W c = []"
    using I by (auto simp: sig_inv_def)
  have wlX: "dlist (wl st) (ConnRoot X) (map Walker (W X))" by (rule inv_wlist[OF I Xin])
  have lvw: "live WL = live (wl st)" by (cases bs) (auto simp: WL_def)
  have c1: "dlist (cl st') (SigRoot s) (map Conn (as @ bs))" using dl1 f(1) by simp
  have c2: "live (cl st') = insert (SigRoot s) (Conn ` (set (as @ bs) \<union> insert X D))"
    using I cs by (auto simp: f(1) C1_def sig_inv_def)
  have c3: "set (as @ bs) \<inter> insert X D = {}" using D(1) dist cs by auto
  have c4n: "nxt (cl st') (Conn c) = None \<and> prv (cl st') (Conn c) = None" if "c \<in> insert X D" for c
  proof (cases "c = X")
    case True
    then show ?thesis by (simp add: f(1) C1_def)
  next
    case False
    then have c: "c \<in> D" using that by simp
    then have "c \<notin> set cs" using D(1) by auto
    then have "Conn c \<noteq> p" "Conn c \<noteq> n" using pin nin cs by auto
    then show ?thesis using D(2)[OF c] by (simp add: f(1) C1_def)
  qed
  have c5p: "parent st' c = None \<or> parent st' c = Some s" if "c \<in> set (as @ bs) \<union> insert X D" for c
    using I that cs by (auto simp: f(3) sig_inv_def)
  have disj: "set (W c) \<inter> set (W X) = {}" if "c \<in> set cs \<union> D" "c \<noteq> X" for c
    using inv_disjoint[OF I that(1) Xin that(2)] .
  have c8: "\<forall>w\<in>parked cs W \<union> U. w < wcount st'" using I by (simp add: f(7) sig_inv_def)
  have pk: "parked cs W = parked as W \<union> set (W X) \<union> parked bs W"
    using cs by (auto simp: parked_append parked_Cons)
  have pas: "parked as (W(X := ws)) = parked as W" for ws
    by (rule parked_fresh) (use dist in auto)
  have pbs: "parked bs (W(X := ws)) = parked bs W" for ws
    by (rule parked_fresh) (use dist in auto)
  have Uold: "\<And>w. w \<in> U \<Longrightarrow> nxt (wl st) (Walker w) = None \<and> prv (wl st) (Walker w) = None \<and>
      w \<notin> parked cs W \<and> deleted st w \<and> held st w = Some (SigRoot s)"
    using I by (auto simp: sig_inv_def)
  have lw: "live (wl st) = ConnRoot ` (set cs \<union> D) \<union> Walker ` (parked cs W \<union> U)"
    using I by (simp add: sig_inv_def)
  have I': "sig_inv st' s (as @ bs) (insert X D) (disc_W X bs W) (disc_U X bs W U)"
  proof (cases bs)
    case Nil
    have dW: "disc_W X bs W = W(X := [])" and dU: "disc_U X bs W U = U \<union> set (W X)"
      using Nil by (simp_all add: disc_W_def disc_U_def)
    have n: "n = SigRoot s" using Nil by (simp add: n_def)
    have WL: "WL = cleared (ConnRoot X) (map Walker (W X)) (wl st)" using Nil by (simp add: WL_def)
    have pk': "parked (as @ bs) (W(X := [])) = parked as W" using Nil pas by simp
    show ?thesis unfolding sig_inv_def dW dU
    proof (intro conjI)
      show "dlist (cl st') (SigRoot s) (map Conn (as @ bs))" by (rule c1)
      show "live (cl st') = insert (SigRoot s) (Conn ` (set (as @ bs) \<union> insert X D))" by (rule c2)
      show "set (as @ bs) \<inter> insert X D = {}" by (rule c3)
      show "\<forall>c\<in>insert X D. nxt (cl st') (Conn c) = None \<and> prv (cl st') (Conn c) = None \<and> (W(X := [])) c = []"
        using c4n D(2) by auto
      show "\<forall>c\<in>set (as @ bs) \<union> insert X D. (parent st' c = None \<or> parent st' c = Some s) \<and>
          dlist (wl st') (ConnRoot c) (map Walker ((W(X := [])) c)) \<and>
          (\<forall>w\<in>set ((W(X := [])) c). held st' w = Some (Conn c))"
      proof
        fix c assume c: "c \<in> set (as @ bs) \<union> insert X D"
        show "(parent st' c = None \<or> parent st' c = Some s) \<and>
          dlist (wl st') (ConnRoot c) (map Walker ((W(X := [])) c)) \<and>
          (\<forall>w\<in>set ((W(X := [])) c). held st' w = Some (Conn c))"
        proof (cases "c = X")
          case True
          have "dlist WL (ConnRoot X) []" unfolding WL
            by (rule dlist_cleared) (use wlX in \<open>simp add: dlist_def\<close>)
          then show ?thesis using c5p[OF c] True by (simp add: f(2))
        next
          case False
          then have c': "c \<in> set cs \<union> D" using c cs by auto
          have dj: "set (W c) \<inter> set (W X) = {}" by (rule disj[OF c' False])
          have "dlist WL (ConnRoot c) (map Walker (W c))"
          proof (rule dlist_frame[OF inv_wlist[OF I c']])
            show "\<forall>u\<in>set (ConnRoot c # map Walker (W c)). nxt WL u = nxt (wl st) u \<and> prv WL u = prv (wl st) u"
            proof
              fix u assume "u \<in> set (ConnRoot c # map Walker (W c))"
              then have "u \<noteq> ConnRoot X" "u \<notin> set (map Walker (W X))" using dj False by auto
              then show "nxt WL u = nxt (wl st) u \<and> prv WL u = prv (wl st) u"
                unfolding WL by (rule cleared_frame)
            qed
            show "set (ConnRoot c # map Walker (W c)) \<subseteq> live WL"
              using inv_wlist[OF I c'] lvw by (simp add: dlist_def)
          qed
          moreover have "\<forall>w\<in>set (W c). held st' w = Some (Conn c)"
            using inv_held[OF I c'] dj by (auto simp: f(9))
          ultimately show ?thesis using c5p[OF c] False by (simp add: f(2))
        qed
      qed
      show "live (wl st') = ConnRoot ` (set (as @ bs) \<union> insert X D) \<union> Walker ` (parked (as @ bs) (W(X := [])) \<union> (U \<union> set (W X)))"
        unfolding f(2) lvw lw pk' pk using cs Nil by (auto simp: parked_def)
      show "\<forall>w\<in>U \<union> set (W X). nxt (wl st') (Walker w) = None \<and> prv (wl st') (Walker w) = None \<and>
          w \<notin> parked (as @ bs) (W(X := [])) \<and> deleted st' w \<and> held st' w = Some (SigRoot s)"
      proof
        fix w assume w: "w \<in> U \<union> set (W X)"
        show "nxt (wl st') (Walker w) = None \<and> prv (wl st') (Walker w) = None \<and>
          w \<notin> parked (as @ bs) (W(X := [])) \<and> deleted st' w \<and> held st' w = Some (SigRoot s)"
        proof (cases "w \<in> set (W X)")
          case True
          have "w \<notin> set (W c)" if "c \<in> set as" for c
            using disj[of c] that True cs dist by auto
          then have "w \<notin> parked as W" by (auto simp: parked_def)
          then show ?thesis using True n cleared_member[of "Walker w" "ConnRoot X" "map Walker (W X)" "wl st"]
            by (simp add: f(2,8,9) WL pk')
        next
          case False
          then have wU: "w \<in> U" using w by simp
          have "w \<notin> parked as W" using Uold[OF wU] pk by simp
          then show ?thesis using False Uold[OF wU] cleared_frame[of "Walker w" "ConnRoot X" "map Walker (W X)" "wl st"]
            by (auto simp: f(2,8,9) WL pk')
        qed
      qed
      show "\<forall>w\<in>parked (as @ bs) (W(X := [])) \<union> (U \<union> set (W X)). w < wcount st'"
        using c8 unfolding pk' pk by auto
    qed
  next
    case (Cons b bs')
    have dW: "disc_W X bs W = W(X := [], b := W X @ W b)" and dU: "disc_U X bs W U = U"
      using Cons by (simp_all add: disc_W_def disc_U_def)
    let ?W = "W(X := [], b := W X @ W b)"
    have n: "n = Conn b" using Cons by (simp add: n_def)
    have WL: "WL = spliced (ConnRoot X) (map Walker (W X)) (ConnRoot b) (map Walker (W b)) (wl st)"
      using Cons by (simp add: WL_def)
    have bin: "b \<in> set cs \<union> D" "b \<in> set bs" using cs Cons by auto
    have bX: "b \<noteq> X" using dist Cons by auto
    have bas: "b \<notin> set as" "b \<notin> set bs'" using dist Cons by auto
    have wlb: "dlist (wl st) (ConnRoot b) (map Walker (W b))" by (rule inv_wlist[OF I bin(1)])
    have dj: "set (ConnRoot X # map Walker (W X)) \<inter> set (ConnRoot b # map Walker (W b)) = {}"
      using disj[OF bin(1) bX] bX by auto
    have pk': "parked (as @ bs) ?W = parked cs W"
    proof -
      have "parked as ?W = parked as W" by (rule parked_cong) (use bas dist in auto)
      moreover have "parked bs' ?W = parked bs' W" by (rule parked_cong) (use bas dist Cons in auto)
      ultimately show ?thesis using bX Cons pk by (auto simp: parked_append parked_Cons)
    qed
    show ?thesis unfolding sig_inv_def dW dU
    proof (intro conjI)
      show "dlist (cl st') (SigRoot s) (map Conn (as @ bs))" by (rule c1)
      show "live (cl st') = insert (SigRoot s) (Conn ` (set (as @ bs) \<union> insert X D))" by (rule c2)
      show "set (as @ bs) \<inter> insert X D = {}" by (rule c3)
      show "\<forall>c\<in>insert X D. nxt (cl st') (Conn c) = None \<and> prv (cl st') (Conn c) = None \<and> ?W c = []"
      proof
        fix c assume c: "c \<in> insert X D"
        then have "c \<noteq> b" using c3 bin(2) by auto
        then show "nxt (cl st') (Conn c) = None \<and> prv (cl st') (Conn c) = None \<and> ?W c = []"
          using c4n[OF c] D(2) c by auto
      qed
      show "\<forall>c\<in>set (as @ bs) \<union> insert X D. (parent st' c = None \<or> parent st' c = Some s) \<and>
          dlist (wl st') (ConnRoot c) (map Walker (?W c)) \<and>
          (\<forall>w\<in>set (?W c). held st' w = Some (Conn c))"
      proof
        fix c assume c: "c \<in> set (as @ bs) \<union> insert X D"
        consider "c = X" | "c = b" | "c \<noteq> X" "c \<noteq> b" by blast
        then show "(parent st' c = None \<or> parent st' c = Some s) \<and>
          dlist (wl st') (ConnRoot c) (map Walker (?W c)) \<and>
          (\<forall>w\<in>set (?W c). held st' w = Some (Conn c))"
        proof cases
          case 1
          have "dlist WL (ConnRoot X) []" unfolding WL by (rule dlist_spliced_src[OF wlX wlb dj])
          then show ?thesis using c5p[OF c] 1 bX by (simp add: f(2))
        next
          case 2
          have "dlist WL (ConnRoot b) (map Walker (W X) @ map Walker (W b))"
            unfolding WL by (rule dlist_spliced_dst[OF wlX wlb dj])
          moreover have "\<forall>w\<in>set (W X @ W b). held st' w = Some (Conn b)"
            using inv_held[OF I bin(1)] n by (auto simp: f(9))
          ultimately show ?thesis using c5p[OF c] 2 by (simp add: f(2))
        next
          case 3
          then have c': "c \<in> set cs \<union> D" using c cs by auto
          have dj1: "set (W c) \<inter> set (W X) = {}" by (rule disj[OF c' 3(1)])
          have dj2: "set (W c) \<inter> set (W b) = {}" by (rule inv_disjoint[OF I c' bin(1) 3(2)])
          have "dlist WL (ConnRoot c) (map Walker (W c))"
          proof (rule dlist_frame[OF inv_wlist[OF I c']])
            show "\<forall>u\<in>set (ConnRoot c # map Walker (W c)). nxt WL u = nxt (wl st) u \<and> prv WL u = prv (wl st) u"
            proof
              fix u assume "u \<in> set (ConnRoot c # map Walker (W c))"
              then have "u \<notin> set (ConnRoot X # map Walker (W X))" "u \<notin> set (ConnRoot b # map Walker (W b))"
                using dj1 dj2 3 by auto
              then show "nxt WL u = nxt (wl st) u \<and> prv WL u = prv (wl st) u"
                unfolding WL by (rule spliced_frame)
            qed
            show "set (ConnRoot c # map Walker (W c)) \<subseteq> live WL"
              using inv_wlist[OF I c'] lvw by (simp add: dlist_def)
          qed
          moreover have "\<forall>w\<in>set (W c). held st' w = Some (Conn c)"
            using inv_held[OF I c'] dj1 by (auto simp: f(9))
          ultimately show ?thesis using c5p[OF c] 3 by (simp add: f(2))
        qed
      qed
      show "live (wl st') = ConnRoot ` (set (as @ bs) \<union> insert X D) \<union> Walker ` (parked (as @ bs) ?W \<union> U)"
        unfolding f(2) lvw lw pk' using cs by auto
      show "\<forall>w\<in>U. nxt (wl st') (Walker w) = None \<and> prv (wl st') (Walker w) = None \<and>
          w \<notin> parked (as @ bs) ?W \<and> deleted st' w \<and> held st' w = Some (SigRoot s)"
      proof
        fix w assume wU: "w \<in> U"
        have np: "w \<notin> parked cs W" using Uold[OF wU] by simp
        then have "w \<notin> set (W X)" "w \<notin> set (W b)" using pk bin(2) by (auto simp: parked_def)
        then show "nxt (wl st') (Walker w) = None \<and> prv (wl st') (Walker w) = None \<and>
          w \<notin> parked (as @ bs) ?W \<and> deleted st' w \<and> held st' w = Some (SigRoot s)"
          using Uold[OF wU] np
            spliced_frame[of "Walker w" "ConnRoot X" "map Walker (W X)" "ConnRoot b" "map Walker (W b)" "wl st"]
          by (auto simp: f(2,8,9) WL pk')
      qed
      show "\<forall>w\<in>parked (as @ bs) ?W \<union> U. w < wcount st'"
        using c8 unfolding pk' by auto
    qed
  qed
  show ?thesis
    apply (rule exI[of _ st'])
    using dc I' f by (simp add: same_user_def n_def)
qed

lemma after_decomp: "X \<notin> set as \<Longrightarrow> after X (as @ X # bs) = bs"
  by (simp add: after_def dropWhile_append)

lemma remove1_decomp: "X \<notin> set as \<Longrightarrow> remove1 X (as @ X # bs) = as @ bs"
  by (simp add: remove1_append)

lemma disconnect_unlinked:
  assumes "sig_inv st s cs D W U" "X \<in> D" "parent st X \<noteq> None"
  shows "disconnect X st = Some st"
proof -
  note I = assms(1)
  have f: "nxt (cl st) (Conn X) = None" "prv (cl st) (Conn X) = None" "W X = []"
    "Conn X \<in> live (cl st)"
    using I assms(2) by (auto simp: sig_inv_def)
  have ul: "unlink (Conn X) (cl st) = Some (None, cl st)" by (rule unlink_unlinked[OF f(4,1,2)])
  have wlX: "dlist (wl st) (ConnRoot X) []" using inv_wlist[OF I, of X] assms(2) f(3) by simp
  then have r: "nxt (wl st) (ConnRoot X) = Some (ConnRoot X)" "ConnRoot X \<in> live (wl st)"
    by (auto simp: dlist_def)
  have mk: "mark_walkers (Some (ConnRoot X)) (Some (ConnRoot X)) a st = Some st" for a
    by (subst mark_walkers.simps) simp
  have cl: "clear (ConnRoot X) (wl st) = Some (wl st)"
    using r by (simp add: clear_def empty_list_def get_next_def)
  obtain p where p: "parent st X = Some p" using assms(3) by auto
  show ?thesis using ul r mk cl p f(4)
    by (simp add: disconnect_def get_parent_def begin_list_def get_next_def end_list_def)
qed

lemma distinct_decomp_unique:
  assumes "distinct (as @ X # bs)" "as @ X # bs = pre @ X # post"
  shows "as = pre \<and> bs = post"
proof -
  have "distinct (pre @ X # post)" using assms by simp
  then have "X \<notin> set as" "X \<notin> set pre" "X \<notin> set bs" using assms(1) by auto
  then show ?thesis using assms(2) by (metis append_Cons_eq_iff)
qed

lemma parkedI: "c \<in> set cs \<Longrightarrow> w \<in> set (W c) \<Longrightarrow> w \<in> parked cs W"
  by (auto simp: parked_def)

lemma step_disconnect:
  assumes I: "sig_inv st s cs D W U" and cs: "cs = pre @ c # post"
    and sl: "slot st c = Some [Disconnect X]" and X: "X \<in> set cs" and par: "parent st X = Some s"
  shows "\<exists>st'. emit_loop (Suc m) s (Some (Conn c)) st
             = emit_loop m s (Some (hd (map Conn (remove1 X post) @ [SigRoot s]))) st'
           \<and> sig_inv st' s (remove1 X cs) (insert X D) (disc_W X (after X cs) W) (disc_U X (after X cs) W U)
           \<and> slot st' = slot st \<and> flags st' = flags st \<and> parent st' = parent st
           \<and> trace st' = trace st @ [c]"
proof -
  define d where "d = wcount st"
  define W1 where "W1 = W(c := d # W c)"
  have cin: "c \<in> set cs" using cs by simp
  have dist: "distinct cs" by (rule inv_distinct[OF I])
  from park_inv[OF I cin] obtain st1 where
    pk: "park (Some (Conn c)) st = Some (d, c, st1)" and
    I1: "sig_inv st1 s cs D W1 U" and
    f1: "cl st1 = cl st" "same_user st st1" "wcount st1 = Suc d" "\<not> deleted st1 d"
      "held st1 d = Some (Conn c)"
    unfolding d_def W1_def by blast
  define st1' where "st1' = st1\<lparr>trace := trace st1 @ [c]\<rparr>"
  have I1': "sig_inv st1' s cs D W1 U" using I1 by (simp add: st1'_def inv_trace_upd)
  obtain as bs where asbs: "cs = as @ X # bs" using X by (auto simp: in_set_conv_decomp)
  have Xas: "X \<notin> set as" "X \<notin> set bs" using dist asbs by auto
  have aft: "after X cs = bs" using asbs Xas by (simp add: after_decomp)
  have rem: "remove1 X cs = as @ bs" using asbs Xas by (simp add: remove1_decomp)
  have par1: "parent st1' X = Some s" using par f1(2) by (simp add: st1'_def same_user_def)
  define n where "n = hd (map Conn bs @ [SigRoot s])"
  from disconnect_inv[OF I1' asbs par1] obtain st2 where
    dc: "disconnect X st1' = Some st2" and
    I2: "sig_inv st2 s (as @ bs) (insert X D) (disc_W X bs W1) (disc_U X bs W1 U)" and
    f2: "same_user st1' st2" "wcount st2 = wcount st1'"
      "\<forall>w. deleted st2 w = (w \<in> set (W1 X) \<or> deleted st1' w)"
      "\<forall>w. held st2 w = (if w \<in> set (W1 X) then Some n else held st1' w)"
    unfolding n_def by blast
  have lvc1: "Conn c \<in> live (cl st1)" using inv_live_conn[OF I1] cin by simp
  have gs: "get_slot st1 c = Some (Some [Disconnect X])"
    using lvc1 f1(2) sl by (simp add: get_slot_def same_user_def)
  have rn: "run m [Disconnect X] st1' = Finished st2" using dc by simp
  have dfresh: "d \<notin> parked cs W \<union> U" using inv_fresh[OF I] inv_live_walker[OF I, of d] by (simp add: d_def)
  have dW: "d \<notin> set (W c')" if "c' \<in> set cs" for c' using dfresh that by (auto simp: parked_def)
  have lvc2: "Conn c \<in> live (cl st2)"
    using inv_live_conn[OF I2, of c] cin asbs by auto
  have usr: "slot st2 = slot st" "flags st2 = flags st" "parent st2 = parent st" "trace st2 = trace st @ [c]"
    using f1(2) f2(1) by (auto simp: same_user_def st1'_def)
  have goal: "\<exists>st3. resume d (Some (Conn c)) st2 = Some (Some (hd (map Conn (remove1 X post) @ [SigRoot s])), st3)
      \<and> sig_inv st3 s (as @ bs) (insert X D) (disc_W X bs W) (disc_U X bs W U) \<and> same_user st2 st3"
  proof (cases "X = c")
    case True
    have "as = pre \<and> bs = post" using distinct_decomp_unique[of as X bs pre post] dist asbs cs True by simp
    then have ap: "as = pre" "bs = post" by auto
    have rp: "remove1 X post = post" using Xas ap by (simp add: remove1_idem)
    have dX: "d \<in> set (W1 X)" using True by (simp add: W1_def)
    have del: "deleted st2 d" "held st2 d = Some n" using f2(3,4) dX by auto
    show ?thesis
    proof (cases bs)
      case Nil
      have dU: "d \<in> disc_U X bs W1 U" using Nil dX by (simp add: disc_U_def)
      from unpark_unparked[OF I2 dU] obtain st3 where
        up: "unpark d st2 = Some st3" and
        I3: "sig_inv st3 s (as @ bs) (insert X D) (disc_W X bs W1) (disc_U X bs W1 U - {d})" and
        f3: "same_user st2 st3"
        by blast
      have lvd: "Walker d \<in> live (wl st2)" using inv_live_walker[OF I2, of d] dU by simp
      have e1: "disc_W X bs W1 = disc_W X bs W" using Nil True by (simp add: disc_W_def W1_def)
      have e2: "disc_U X bs W1 U - {d} = disc_U X bs W U"
        using Nil True dfresh dW[OF cin] by (auto simp: disc_U_def W1_def)
      have "resume d (Some (Conn c)) st2 = Some (Some n, st3)"
        using up lvd del by (simp add: resume_def get_deleted_def get_held_def)
      then show ?thesis using I3 f3 e1 e2 rp ap by (auto simp: n_def)
    next
      case (Cons b bs')
      have bX: "b \<noteq> X" using Xas Cons by auto
      have bin: "b \<in> set (as @ bs)" using Cons by simp
      have Wb: "(disc_W X bs W1) b = [] @ d # (W X @ W b)"
        using Cons True bX by (simp add: disc_W_def W1_def)
      from unpark_parked[OF I2 bin Wb] obtain st3 where
        up: "unpark d st2 = Some st3" and
        I3: "sig_inv st3 s (as @ bs) (insert X D) ((disc_W X bs W1)(b := [] @ (W X @ W b))) (disc_U X bs W1 U)" and
        f3: "same_user st2 st3"
        by blast
      have "d \<in> set ((disc_W X bs W1) b)" using Wb by simp
      then have "d \<in> parked (as @ bs) (disc_W X bs W1)" by (rule parkedI[OF bin])
      then have lvd: "Walker d \<in> live (wl st2)" using inv_live_walker[OF I2, of d] by simp
      have e1: "(disc_W X bs W1)(b := [] @ (W X @ W b)) = disc_W X bs W"
        using Cons True bX by (auto simp: disc_W_def W1_def fun_eq_iff)
      have e2: "disc_U X bs W1 U = disc_U X bs W U" using Cons by (simp add: disc_U_def)
      have "resume d (Some (Conn c)) st2 = Some (Some n, st3)"
        using up lvd del by (simp add: resume_def get_deleted_def get_held_def)
      then show ?thesis using I3 f3 e1 e2 rp ap by (auto simp: n_def)
    qed
  next
    case False
    have W1X: "W1 X = W X" using False by (simp add: W1_def)
    have dX: "d \<notin> set (W1 X)" using W1X dW[OF X] by simp
    have del: "\<not> deleted st2 d" using f2(3) dX f1(4) by (simp add: st1'_def)
    have rem2: "as @ bs = remove1 X pre @ c # remove1 X post"
    proof -
      have "remove1 X cs = remove1 X pre @ c # remove1 X post"
      proof (cases "X \<in> set pre")
        case True
        then have "X \<notin> set post" using dist cs by auto
        then show ?thesis using True cs by (simp add: remove1_append remove1_idem)
      next
        case F: False
        then show ?thesis using cs False by (simp add: remove1_append remove1_idem)
      qed
      then show ?thesis using rem by simp
    qed
    have nx: "nxt (cl st2) (Conn c) = Some (hd (map Conn (remove1 X post) @ [SigRoot s]))"
      by (rule inv_next[OF I2 rem2])
    have cin2: "c \<in> set (as @ bs)" using rem2 by simp
    obtain ws where Wc: "(disc_W X bs W1) c = ws @ d # W c" and
      e1: "(disc_W X bs W1)(c := ws @ W c) = disc_W X bs W"
    proof (cases bs)
      case Nil
      have "(disc_W X bs W1) c = [] @ d # W c" using Nil False by (simp add: disc_W_def W1_def)
      moreover have "(disc_W X bs W1)(c := [] @ W c) = disc_W X bs W"
        using Nil False by (auto simp: disc_W_def W1_def fun_eq_iff)
      ultimately show ?thesis by (rule that)
    next
      case (Cons b bs')
      show ?thesis
      proof (cases "b = c")
        case True
        have "(disc_W X bs W1) c = W X @ d # W c" using Cons False True by (simp add: disc_W_def W1_def)
        moreover have "(disc_W X bs W1)(c := W X @ W c) = disc_W X bs W"
          using Cons False True by (auto simp: disc_W_def W1_def fun_eq_iff)
        ultimately show ?thesis by (rule that)
      next
        case F: False
        have "(disc_W X bs W1) c = [] @ d # W c" using Cons False F by (simp add: disc_W_def W1_def)
        moreover have "(disc_W X bs W1)(c := [] @ W c) = disc_W X bs W"
          using Cons False F by (auto simp: disc_W_def W1_def fun_eq_iff)
        ultimately show ?thesis by (rule that)
      qed
    qed
    from unpark_parked[OF I2 cin2 Wc] obtain st3 where
      up: "unpark d st2 = Some st3" and
      I3: "sig_inv st3 s (as @ bs) (insert X D) ((disc_W X bs W1)(c := ws @ W c)) (disc_U X bs W1 U)" and
      f3: "same_user st2 st3"
      by blast
    have "d \<in> set ((disc_W X bs W1) c)" using Wc by simp
    then have "d \<in> parked (as @ bs) (disc_W X bs W1)" by (rule parkedI[OF cin2])
    then have lvd: "Walker d \<in> live (wl st2)" using inv_live_walker[OF I2, of d] by simp
    have e2: "disc_U X bs W1 U = disc_U X bs W U" using W1X by (simp add: disc_U_def split: list.splits)
    have "resume d (Some (Conn c)) st2 = Some (Some (hd (map Conn (remove1 X post) @ [SigRoot s])), st3)"
      using up lvd del lvc2 nx by (simp add: resume_def get_deleted_def deref_def get_next_def)
    then show ?thesis using I3 f3 e1 e2 by auto
  qed
  then obtain st3 where
    rs: "resume d (Some (Conn c)) st2 = Some (Some (hd (map Conn (remove1 X post) @ [SigRoot s])), st3)" and
    I3: "sig_inv st3 s (as @ bs) (insert X D) (disc_W X bs W) (disc_U X bs W U)" and
    f3: "same_user st2 st3"
    by blast
  have "emit_loop (Suc m) s (Some (Conn c)) st
      = emit_loop m s (Some (hd (map Conn (remove1 X post) @ [SigRoot s]))) st3"
    using pk gs rn rs by (simp add: end_list_def st1'_def)
  then show ?thesis using I3 f3 usr aft rem by (auto simp: same_user_def)
qed

lemma remove1_split:
  assumes "distinct (xs @ ys)"
  shows "remove1 X (xs @ ys) = remove1 X xs @ remove1 X ys"
proof (cases "X \<in> set xs")
  case True
  then have "X \<notin> set ys" using assms by auto
  then show ?thesis using True by (simp add: remove1_append remove1_idem)
next
  case False
  then show ?thesis by (simp add: remove1_append remove1_idem)
qed

lemma loop_disconnect:
  assumes "sig_inv st s cs D W U" "cs = pre0 @ pre @ c # post"
    "slot st c = Some [Disconnect X]" "\<forall>c'\<in>set pre \<union> set post. slot st c' = Some []"
    "X \<in> set cs" "parent st X = Some s" "length (pre @ c # post) < n"
  shows "\<exists>st'. emit_loop n s (Some (hd (map Conn (pre @ c # post) @ [SigRoot s]))) st = Finished st'
           \<and> trace st' = trace st @ pre @ c # remove1 X post
           \<and> sig_inv st' s (remove1 X cs) (insert X D) (disc_W X (after X cs) W) (disc_U X (after X cs) W U)"
  using assms
proof (induction pre arbitrary: pre0 st n)
  case Nil
  then obtain m where n: "n = Suc m" by (cases n) auto
  have cs: "cs = pre0 @ c # post" using Nil.prems(2) by simp
  have dist: "distinct cs" by (rule inv_distinct[OF Nil.prems(1)])
  from step_disconnect[OF Nil.prems(1) cs Nil.prems(3,5,6), of m] obtain st1 where
    e: "emit_loop (Suc m) s (Some (Conn c)) st
          = emit_loop m s (Some (hd (map Conn (remove1 X post) @ [SigRoot s]))) st1" and
    I1: "sig_inv st1 s (remove1 X cs) (insert X D) (disc_W X (after X cs) W) (disc_U X (after X cs) W U)" and
    f1: "slot st1 = slot st" "trace st1 = trace st @ [c]"
    by blast
  have "distinct ((pre0 @ [c]) @ post)" using dist cs by simp
  from remove1_split[OF this, of X]
  have r: "remove1 X cs = remove1 X (pre0 @ [c]) @ remove1 X post" using cs by simp
  have sl: "\<forall>c'\<in>set (remove1 X post). slot st1 c' = Some []"
    using Nil.prems(4) f1(1) set_remove1_subset[of X post] by auto
  have len: "length (remove1 X post) < m"
    using Nil.prems(7) n length_remove1[of X post] by (auto split: if_splits)
  from loop_noop[OF I1 r sl len] obtain st' where
    l: "emit_loop m s (Some (hd (map Conn (remove1 X post) @ [SigRoot s]))) st1 = Finished st'"
      "sig_inv st' s (remove1 X cs) (insert X D) (disc_W X (after X cs) W) (disc_U X (after X cs) W U)"
      "trace st' = trace st1 @ remove1 X post"
    by blast
  show ?case
    apply (rule exI[of _ st'])
    using e l f1 n by simp
next
  case (Cons a pre)
  then obtain m where n: "n = Suc m" by (cases n) auto
  have ain: "a \<in> set cs" using Cons.prems(2) by simp
  have sa: "slot st a = Some []" using Cons.prems(4) by simp
  from step_noop[OF Cons.prems(1) ain sa, of m] obtain st1 where
    e: "emit_loop (Suc m) s (Some (Conn a)) st = emit_loop m s (nxt (cl st) (Conn a)) st1" and
    I1: "sig_inv st1 s cs D W U" and
    f1: "slot st1 = slot st" "parent st1 = parent st" "trace st1 = trace st @ [a]"
    by blast
  have cs': "cs = (pre0 @ [a]) @ pre @ c # post" using Cons.prems(2) by simp
  have nx: "nxt (cl st) (Conn a) = Some (hd (map Conn (pre @ c # post) @ [SigRoot s]))"
    using inv_next[OF Cons.prems(1), of pre0 a "pre @ c # post"] Cons.prems(2) by simp
  have "\<exists>st'. emit_loop m s (Some (hd (map Conn (pre @ c # post) @ [SigRoot s]))) st1 = Finished st'
           \<and> trace st' = trace st1 @ pre @ c # remove1 X post
           \<and> sig_inv st' s (remove1 X cs) (insert X D) (disc_W X (after X cs) W) (disc_U X (after X cs) W U)"
    by (rule Cons.IH[OF I1 cs']) (use Cons.prems f1 n in auto)
  then obtain st' where
    l: "emit_loop m s (Some (hd (map Conn (pre @ c # post) @ [SigRoot s]))) st1 = Finished st'"
      "trace st' = trace st1 @ pre @ c # remove1 X post"
      "sig_inv st' s (remove1 X cs) (insert X D) (disc_W X (after X cs) W) (disc_U X (after X cs) W U)"
    by blast
  show ?case
    apply (rule exI[of _ st'])
    using e nx l f1 n by simp
qed

lemma inv_live_wl_eq:
  "sig_inv st s cs D W U \<Longrightarrow> sig_inv st' s cs D W U \<Longrightarrow> live (wl st') = live (wl st)"
  by (simp add: sig_inv_def)

lemma inv_walker_bound: "sig_inv st s cs D W U \<Longrightarrow> Walker w \<in> live (wl st) \<Longrightarrow> w < wcount st"
  by (auto simp: sig_inv_def)

lemma step_throw:
  assumes "sig_inv st s cs D W U" "c \<in> set cs" "slot st c = Some (Throw # rest)"
  shows "\<exists>st'. emit_loop (Suc n) s (Some (Conn c)) st = Raised st'
           \<and> sig_inv st' s cs D W U \<and> cl st' = cl st \<and> slot st' = slot st \<and> flags st' = flags st
           \<and> parent st' = parent st \<and> trace st' = trace st @ [c] \<and> wcount st' = Suc (wcount st)"
proof -
  define d where "d = wcount st"
  from park_inv[OF assms(1,2)] obtain st1 where
    pk: "park (Some (Conn c)) st = Some (d, c, st1)" and
    I1: "sig_inv st1 s cs D (W(c := d # W c)) U" and
    f1: "cl st1 = cl st" "same_user st st1" "wcount st1 = Suc d"
    unfolding d_def by blast
  define st2 where "st2 = st1\<lparr>trace := trace st1 @ [c]\<rparr>"
  have I2: "sig_inv st2 s cs D (W(c := d # W c)) U" using I1 by (simp add: st2_def inv_trace_upd)
  have "(W(c := d # W c)) c = [] @ d # W c" by simp
  from unpark_parked[OF I2 assms(2) this] obtain st3 where
    up: "unpark d st2 = Some st3" and
    I3: "sig_inv st3 s cs D ((W(c := d # W c))(c := [] @ W c)) U" and
    f3: "cl st3 = cl st2" "same_user st2 st3" "wcount st3 = wcount st2"
    by blast
  have I3': "sig_inv st3 s cs D W U" using I3 by simp
  have lvc: "Conn c \<in> live (cl st1)" using inv_live_conn[OF I1] assms(2) by simp
  have sl: "get_slot st1 c = Some (Some (Throw # rest))"
    using lvc f1(2) assms(3) by (simp add: get_slot_def same_user_def)
  have "emit_loop (Suc n) s (Some (Conn c)) st = Raised st3"
    using pk sl up by (simp add: end_list_def st2_def)
  moreover have "cl st3 = cl st" "slot st3 = slot st" "flags st3 = flags st" "parent st3 = parent st"
    "trace st3 = trace st @ [c]" "wcount st3 = Suc (wcount st)"
    using f1 f3 by (auto simp: st2_def same_user_def d_def)
  ultimately show ?thesis using I3' by blast
qed

lemma loop_throw:
  assumes "sig_inv st s cs D W U" "cs = pre0 @ pre @ c # post"
    "slot st c = Some (Throw # rest)" "\<forall>c'\<in>set pre. slot st c' = Some []" "length pre < n"
  shows "\<exists>st'. emit_loop n s (Some (hd (map Conn (pre @ c # post) @ [SigRoot s]))) st = Raised st'
           \<and> trace st' = trace st @ pre @ [c] \<and> sig_inv st' s cs D W U
           \<and> cl st' = cl st \<and> wcount st' = wcount st + length pre + 1"
  using assms
proof (induction pre arbitrary: pre0 st n)
  case Nil
  then obtain m where n: "n = Suc m" by (cases n) auto
  have cin: "c \<in> set cs" using Nil.prems(2) by simp
  from step_throw[OF Nil.prems(1) cin Nil.prems(3), of m] n show ?case by auto
next
  case (Cons a pre)
  then obtain m where n: "n = Suc m" by (cases n) auto
  have ain: "a \<in> set cs" using Cons.prems(2) by simp
  have sa: "slot st a = Some []" using Cons.prems(4) by simp
  from step_noop[OF Cons.prems(1) ain sa, of m] obtain st1 where
    e: "emit_loop (Suc m) s (Some (Conn a)) st = emit_loop m s (nxt (cl st) (Conn a)) st1" and
    I1: "sig_inv st1 s cs D W U" and
    f1: "cl st1 = cl st" "slot st1 = slot st" "trace st1 = trace st @ [a]" "wcount st1 = Suc (wcount st)"
    by blast
  have cs': "cs = (pre0 @ [a]) @ pre @ c # post" using Cons.prems(2) by simp
  have nx: "nxt (cl st) (Conn a) = Some (hd (map Conn (pre @ c # post) @ [SigRoot s]))"
    using inv_next[OF Cons.prems(1), of pre0 a "pre @ c # post"] Cons.prems(2) by simp
  have "\<exists>st'. emit_loop m s (Some (hd (map Conn (pre @ c # post) @ [SigRoot s]))) st1 = Raised st'
           \<and> trace st' = trace st1 @ pre @ [c] \<and> sig_inv st' s cs D W U
           \<and> cl st' = cl st1 \<and> wcount st' = wcount st1 + length pre + 1"
    by (rule Cons.IH[OF I1 cs']) (use Cons.prems f1 n in auto)
  then obtain st' where
    l: "emit_loop m s (Some (hd (map Conn (pre @ c # post) @ [SigRoot s]))) st1 = Raised st'"
      "trace st' = trace st1 @ pre @ [c]" "sig_inv st' s cs D W U"
      "cl st' = cl st1" "wcount st' = wcount st1 + length pre + 1"
    by blast
  show ?case
    apply (rule exI[of _ st'])
    using e nx l f1 n by simp
qed

lemma step_positional:
  assumes pk: "park (Some (Conn c)) st = Some (d, c, st1)"
    and gs: "get_slot st1 c = Some (Some f)"
    and rn: "run m f (st1\<lparr>trace := trace st1 @ [c]\<rparr>) = Finished st2"
    and I2: "sig_inv st2 s cs2 D2 W2 U2" and cs2: "cs2 = pre2 @ c # post2"
    and Wc: "W2 c = ws @ d # ws'" and nd: "\<not> deleted st2 d"
  shows "\<exists>st3. emit_loop (Suc m) s (Some (Conn c)) st
             = emit_loop m s (Some (hd (map Conn post2 @ [SigRoot s]))) st3
           \<and> sig_inv st3 s cs2 D2 (W2(c := ws @ ws')) U2 \<and> same_user st2 st3"
proof -
  have cin: "c \<in> set cs2" using cs2 by simp
  from unpark_parked[OF I2 cin Wc] obtain st3 where
    up: "unpark d st2 = Some st3" and
    I3: "sig_inv st3 s cs2 D2 (W2(c := ws @ ws')) U2" and
    f3: "same_user st2 st3"
    by blast
  have "d \<in> set (W2 c)" using Wc by simp
  then have "d \<in> parked cs2 W2" by (rule parkedI[OF cin])
  then have lvd: "Walker d \<in> live (wl st2)" using inv_live_walker[OF I2, of d] by simp
  have lvc: "Conn c \<in> live (cl st2)" using inv_live_conn[OF I2, of c] cin by simp
  have nx: "nxt (cl st2) (Conn c) = Some (hd (map Conn post2 @ [SigRoot s]))"
    by (rule inv_next[OF I2 cs2])
  have rs: "resume d (Some (Conn c)) st2 = Some (Some (hd (map Conn post2 @ [SigRoot s])), st3)"
    using up lvd nd lvc nx by (simp add: resume_def get_deleted_def deref_def get_next_def)
  have "emit_loop (Suc m) s (Some (Conn c)) st
      = emit_loop m s (Some (hd (map Conn post2 @ [SigRoot s]))) st3"
    using pk gs rn rs by (simp add: end_list_def)
  then show ?thesis using I3 f3 by blast
qed



lemma step_nested:
  assumes I: "sig_inv st s cs D W U" and cs: "cs = pre @ c # post"
    and sl: "slot st c = Some [Once g [Emit s]]" and g: "g \<notin> flags st"
    and others: "\<forall>c'\<in>set pre \<union> set post. slot st c' = Some []"
    and fuel: "length cs < m"
  shows "\<exists>st'. emit_loop (Suc m) s (Some (Conn c)) st
             = emit_loop m s (Some (hd (map Conn post @ [SigRoot s]))) st'
           \<and> sig_inv st' s cs D W U
           \<and> slot st' = slot st \<and> flags st' = insert g (flags st)
           \<and> trace st' = trace st @ c # cs"
proof -
  define d where "d = wcount st"
  define W1 where "W1 = W(c := d # W c)"
  have cin: "c \<in> set cs" using cs by simp
  from park_inv[OF I cin] obtain st1 where
    pk: "park (Some (Conn c)) st = Some (d, c, st1)" and
    I1: "sig_inv st1 s cs D W1 U" and
    f1: "cl st1 = cl st" "same_user st st1" "wcount st1 = Suc d" "\<not> deleted st1 d"
    unfolding d_def W1_def by blast
  define st1' where "st1' = st1\<lparr>trace := trace st1 @ [c], flags := insert g (flags st1)\<rparr>"
  have I1': "sig_inv st1' s cs D W1 U" using I1 by (simp add: st1'_def inv_trace_upd inv_flags_upd)
  have q: "\<forall>c'\<in>set cs. \<exists>f. slot st1' c' = Some f \<and> quiet (flags st1') f"
  proof
    fix c' assume "c' \<in> set cs"
    then consider "c' = c" | "c' \<in> set pre \<union> set post" using cs by auto
    then show "\<exists>f. slot st1' c' = Some f \<and> quiet (flags st1') f"
    proof cases
      case 1
      then show ?thesis using sl f1(2) by (simp add: st1'_def same_user_def quiet_def)
    next
      case 2
      then show ?thesis using others f1(2) by (simp add: st1'_def same_user_def quiet_def)
    qed
  qed
  have r: "cs = [] @ cs" by simp
  from loop_quiet[OF I1' r q fuel] obtain st2 where
    l: "emit_loop m s (Some (hd (map Conn cs @ [SigRoot s]))) st1' = Finished st2"
      "sig_inv st2 s cs D W1 U" "slot st2 = slot st1'" "flags st2 = flags st1'"
      "trace st2 = trace st1' @ cs"
      "\<forall>w. w < wcount st1' \<longrightarrow> deleted st2 w = deleted st1' w \<and> held st2 w = held st1' w"
    by blast
  have "hd (map Conn cs @ [SigRoot s]) = Conn (hd cs)" using cs by (cases pre) auto
  then have em: "emit m s st1' = Finished st2"
    using l(1) cs by (subst emit_begin[OF I1']) auto
  have lvc1: "Conn c \<in> live (cl st1)" using inv_live_conn[OF I1] cin by simp
  have gs: "get_slot st1 c = Some (Some [Once g [Emit s]])"
    using lvc1 f1(2) sl by (simp add: get_slot_def same_user_def)
  have g1: "g \<notin> flags st1" using g f1(2) by (simp add: same_user_def)
  have rn: "run m [Once g [Emit s]] (st1\<lparr>trace := trace st1 @ [c]\<rparr>) = Finished st2"
    using em g1 by (simp add: st1'_def del: emit.simps)
  have Wc: "W1 c = [] @ d # W c" by (simp add: W1_def)
  have nd: "\<not> deleted st2 d" using l(6) f1(3,4) by (simp add: st1'_def)
  from step_positional[OF pk gs rn l(2) cs Wc nd] obtain st3 where
    e: "emit_loop (Suc m) s (Some (Conn c)) st
          = emit_loop m s (Some (hd (map Conn post @ [SigRoot s]))) st3" and
    I3: "sig_inv st3 s cs D (W1(c := [] @ W c)) U" and f3: "same_user st2 st3"
    by blast
  have I3': "sig_inv st3 s cs D W U" using I3 by (simp add: W1_def)
  have "slot st3 = slot st" "flags st3 = insert g (flags st)" "trace st3 = trace st @ c # cs"
    using f1(2) l(3,4,5) f3 by (auto simp: same_user_def st1'_def)
  then show ?thesis using e I3' by blast
qed

lemma loop_nested:
  assumes "sig_inv st s cs D W U" "cs = pre0 @ pre @ c # post"
    "slot st c = Some [Once g [Emit s]]" "g \<notin> flags st"
    "\<forall>c'\<in>set pre0 \<union> set pre \<union> set post. slot st c' = Some []"
    "Suc (length pre + length cs) < n"
  shows "\<exists>st'. emit_loop n s (Some (hd (map Conn (pre @ c # post) @ [SigRoot s]))) st = Finished st'
           \<and> trace st' = trace st @ pre @ c # cs @ post
           \<and> sig_inv st' s cs D W U \<and> flags st' = insert g (flags st)"
  using assms
proof (induction pre arbitrary: pre0 st n)
  case Nil
  then obtain m where n: "n = Suc m" by (cases n) auto
  have cs: "cs = pre0 @ c # post" using Nil.prems(2) by simp
  have o: "\<forall>c'\<in>set pre0 \<union> set post. slot st c' = Some []" using Nil.prems(5) by simp
  have fuel: "length cs < m" using Nil.prems(6) n by simp
  from step_nested[OF Nil.prems(1) cs Nil.prems(3,4) o fuel] obtain st1 where
    e: "emit_loop (Suc m) s (Some (Conn c)) st
          = emit_loop m s (Some (hd (map Conn post @ [SigRoot s]))) st1" and
    I1: "sig_inv st1 s cs D W U" and
    f1: "slot st1 = slot st" "flags st1 = insert g (flags st)" "trace st1 = trace st @ c # cs"
    by blast
  have r: "cs = (pre0 @ [c]) @ post" using cs by simp
  have sl: "\<forall>c'\<in>set post. slot st1 c' = Some []" using o f1(1) by simp
  have len: "length post < m" using fuel cs by simp
  from loop_noop[OF I1 r sl len] obtain st' where
    l: "emit_loop m s (Some (hd (map Conn post @ [SigRoot s]))) st1 = Finished st'"
      "sig_inv st' s cs D W U" "trace st' = trace st1 @ post" "flags st' = flags st1"
    by blast
  have "emit_loop n s (Some (hd (map Conn ([] @ c # post) @ [SigRoot s]))) st = Finished st'"
    using e l(1) n by (simp del: emit_loop.simps)
  moreover have "trace st' = trace st @ [] @ c # cs @ post" using l(3) f1(3) by simp
  moreover have "flags st' = insert g (flags st)" using l(4) f1(2) by simp
  ultimately show ?case using l(2) by blast
next
  case (Cons a pre)
  then obtain m where n: "n = Suc m" by (cases n) auto
  have ain: "a \<in> set cs" using Cons.prems(2) by simp
  have sa: "slot st a = Some []" using Cons.prems(5) by simp
  from step_noop[OF Cons.prems(1) ain sa, of m] obtain st1 where
    e: "emit_loop (Suc m) s (Some (Conn a)) st = emit_loop m s (nxt (cl st) (Conn a)) st1" and
    I1: "sig_inv st1 s cs D W U" and
    f1: "slot st1 = slot st" "flags st1 = flags st" "trace st1 = trace st @ [a]"
    by blast
  have cs': "cs = (pre0 @ [a]) @ pre @ c # post" using Cons.prems(2) by simp
  have nx: "nxt (cl st) (Conn a) = Some (hd (map Conn (pre @ c # post) @ [SigRoot s]))"
    using inv_next[OF Cons.prems(1), of pre0 a "pre @ c # post"] Cons.prems(2) by simp
  have "\<exists>st'. emit_loop m s (Some (hd (map Conn (pre @ c # post) @ [SigRoot s]))) st1 = Finished st'
           \<and> trace st' = trace st1 @ pre @ c # cs @ post
           \<and> sig_inv st' s cs D W U \<and> flags st' = insert g (flags st1)"
    by (rule Cons.IH[OF I1 cs']) (use Cons.prems f1 n in auto)
  then obtain st' where
    l: "emit_loop m s (Some (hd (map Conn (pre @ c # post) @ [SigRoot s]))) st1 = Finished st'"
      "trace st' = trace st1 @ pre @ c # cs @ post"
      "sig_inv st' s cs D W U" "flags st' = insert g (flags st1)"
    by blast
  have "emit_loop n s (Some (hd (map Conn ((a # pre) @ c # post) @ [SigRoot s]))) st = Finished st'"
    using e nx l(1) n by (simp del: emit_loop.simps)
  moreover have "trace st' = trace st @ (a # pre) @ c # cs @ post" using l(2) f1(3) by simp
  moreover have "flags st' = insert g (flags st)" using l(4) f1(2) by simp
  ultimately show ?case using l(3) by blast
qed

lemma park_twice:
  assumes "sig_inv st s cs D W U" "c \<in> set cs"
  shows "\<exists>d1 d2 st1 st2. park (Some (Conn c)) st = Some (d1, c, st1)
           \<and> park (Some (Conn c)) st1 = Some (d2, c, st2) \<and> d1 \<noteq> d2
           \<and> sig_inv st2 s cs D (W(c := d2 # d1 # W c)) U
           \<and> held st2 d1 = Some (Conn c) \<and> held st2 d2 = Some (Conn c)"
proof -
  from park_inv[OF assms] obtain st1 where
    p1: "park (Some (Conn c)) st = Some (wcount st, c, st1)" and
    I1: "sig_inv st1 s cs D (W(c := wcount st # W c)) U" and
    f1: "wcount st1 = Suc (wcount st)" "held st1 (wcount st) = Some (Conn c)"
    by blast
  from park_inv[OF I1 assms(2)] obtain st2 where
    p2: "park (Some (Conn c)) st1 = Some (wcount st1, c, st2)" and
    I2: "sig_inv st2 s cs D ((W(c := wcount st # W c))(c := wcount st1 # (W(c := wcount st # W c)) c)) U" and
    f2: "held st2 (wcount st1) = Some (Conn c)"
      "\<forall>w. w \<noteq> wcount st1 \<longrightarrow> deleted st2 w = deleted st1 w \<and> held st2 w = held st1 w"
    by blast
  have "sig_inv st2 s cs D (W(c := wcount st1 # wcount st # W c)) U" using I2 by simp
  moreover have "wcount st \<noteq> wcount st1" using f1(1) by simp
  moreover have "held st2 (wcount st) = Some (Conn c)" using f2(2) f1 by simp
  ultimately show ?thesis using p1 p2 f2(1) by blast
qed








lemma unlink_self:
  assumes "x \<in> live L" "nxt L x = Some x" "prv L x = Some x"
  shows "unlink x L = Some (Some x, L\<lparr>nxt := (nxt L)(x := None), prv := (prv L)(x := None)\<rparr>)"
  using assms by (simp add: unlink_def get_next_def get_prev_def set_next_def set_prev_def)

lemma delete_list_empty:
  assumes "dlist L r []"
  shows "delete_list r L = Some (L\<lparr>nxt := (nxt L)(r := None), prv := (prv L)(r := None),
                                   live := live L - {r}\<rparr>)"
proof -
  have r: "r \<in> live L" "nxt L r = Some r" "prv L r = Some r" using assms by (auto simp: dlist_def)
  have "clear r L = Some L" using r by (simp add: clear_def empty_list_def get_next_def)
  then show ?thesis using unlink_self[OF r] by (simp add: delete_list_def delete_element_def)
qed

lemma delete_element_unlinked:
  assumes "x \<in> live L" "nxt L x = None" "prv L x = None"
  shows "delete_element x L = Some (L\<lparr>live := live L - {x}\<rparr>)"
  using unlink_unlinked[OF assms] by (simp add: delete_element_def)

lemma disconnect_unlinked_direct:
  assumes "Conn X \<in> live (cl st)" "nxt (cl st) (Conn X) = None" "prv (cl st) (Conn X) = None"
    "dlist (wl st) (ConnRoot X) []" "parent st X \<noteq> None"
  shows "disconnect X st = Some st"
proof -
  have ul: "unlink (Conn X) (cl st) = Some (None, cl st)" by (rule unlink_unlinked[OF assms(1,2,3)])
  have r: "nxt (wl st) (ConnRoot X) = Some (ConnRoot X)" "ConnRoot X \<in> live (wl st)"
    using assms(4) by (auto simp: dlist_def)
  have mk: "mark_walkers (Some (ConnRoot X)) (Some (ConnRoot X)) a st = Some st" for a
    by (subst mark_walkers.simps) simp
  have cl: "clear (ConnRoot X) (wl st) = Some (wl st)"
    using r by (simp add: clear_def empty_list_def get_next_def)
  obtain p where p: "parent st X = Some p" using assms(5) by auto
  show ?thesis using ul r mk cl p assms(1)
    by (simp add: disconnect_def get_parent_def begin_list_def get_next_def end_list_def)
qed

lemma destroy_unlinked_direct:
  assumes "Conn X \<in> live (cl st)" "nxt (cl st) (Conn X) = None" "prv (cl st) (Conn X) = None"
    "dlist (wl st) (ConnRoot X) []" "parent st X \<noteq> None"
  shows "destroy_connection X st =
     Some (st\<lparr>cl := (cl st)\<lparr>live := live (cl st) - {Conn X}\<rparr>,
              wl := (wl st)\<lparr>nxt := (nxt (wl st))(ConnRoot X := None),
                            prv := (prv (wl st))(ConnRoot X := None),
                            live := live (wl st) - {ConnRoot X}\<rparr>\<rparr>)"
  using disconnect_unlinked_direct[OF assms] delete_list_empty[OF assms(4)]
    delete_element_unlinked[OF assms(1,2,3)]
  by (simp add: destroy_connection_def)

lemma destroy_unlinked_inv:
  assumes I: "sig_inv st s cs D W U" and c: "c \<in> D" and par: "parent st c \<noteq> None"
  shows "\<exists>st'. destroy_connection c st = Some st' \<and> sig_inv st' s cs (D - {c}) W U
           \<and> same_user st st' \<and> Conn c \<notin> live (cl st') \<and> ConnRoot c \<notin> live (wl st')"
proof -
  define st' where "st' = st\<lparr>cl := (cl st)\<lparr>live := live (cl st) - {Conn c}\<rparr>,
              wl := (wl st)\<lparr>nxt := (nxt (wl st))(ConnRoot c := None),
                            prv := (prv (wl st))(ConnRoot c := None),
                            live := live (wl st) - {ConnRoot c}\<rparr>\<rparr>"
  have Dc: "set cs \<inter> D = {}" "\<And>c'. c' \<in> D \<Longrightarrow> nxt (cl st) (Conn c') = None \<and> prv (cl st) (Conn c') = None \<and> W c' = []"
    using I by (auto simp: sig_inv_def)
  have cin: "c \<in> set cs \<union> D" using c by simp
  have wlc: "dlist (wl st) (ConnRoot c) []" using inv_wlist[OF I cin] Dc(2)[OF c] by simp
  have dc: "destroy_connection c st = Some st'"
    unfolding st'_def
    by (rule destroy_unlinked_direct) (use inv_live_conn[OF I cin] Dc(2)[OF c] wlc par in auto)
  have ccs: "c \<notin> set cs" using Dc(1) c by auto
  have I': "sig_inv st' s cs (D - {c}) W U"
    unfolding sig_inv_def
  proof (intro conjI)
    show "dlist (cl st') (SigRoot s) (map Conn cs)"
      using inv_clist[OF I] ccs by (auto simp: st'_def dlist_def)
    show "live (cl st') = insert (SigRoot s) (Conn ` (set cs \<union> (D - {c})))"
      using I ccs by (auto simp: st'_def sig_inv_def)
    show "set cs \<inter> (D - {c}) = {}" using Dc(1) by auto
    show "\<forall>c'\<in>D - {c}. nxt (cl st') (Conn c') = None \<and> prv (cl st') (Conn c') = None \<and> W c' = []"
      using Dc(2) by (auto simp: st'_def)
    show "\<forall>c'\<in>set cs \<union> (D - {c}). (parent st' c' = None \<or> parent st' c' = Some s) \<and>
        dlist (wl st') (ConnRoot c') (map Walker (W c')) \<and>
        (\<forall>w\<in>set (W c'). held st' w = Some (Conn c'))"
    proof
      fix c' assume c': "c' \<in> set cs \<union> (D - {c})"
      then have c'': "c' \<in> set cs \<union> D" and ne: "c' \<noteq> c" using ccs by auto
      have "dlist (wl st') (ConnRoot c') (map Walker (W c'))"
        by (rule dlist_frame[OF inv_wlist[OF I c'']])
           (use ne inv_wlist[OF I c''] in \<open>auto simp: st'_def dlist_def\<close>)
      then show "(parent st' c' = None \<or> parent st' c' = Some s) \<and>
        dlist (wl st') (ConnRoot c') (map Walker (W c')) \<and>
        (\<forall>w\<in>set (W c'). held st' w = Some (Conn c'))"
        using I c'' by (auto simp: st'_def sig_inv_def)
    qed
    show "live (wl st') = ConnRoot ` (set cs \<union> (D - {c})) \<union> Walker ` (parked cs W \<union> U)"
      using I ccs by (auto simp: st'_def sig_inv_def)
    show "\<forall>w\<in>U. nxt (wl st') (Walker w) = None \<and> prv (wl st') (Walker w) = None \<and>
        w \<notin> parked cs W \<and> deleted st' w \<and> held st' w = Some (SigRoot s)"
      using I by (auto simp: st'_def sig_inv_def)
    show "\<forall>w\<in>parked cs W \<union> U. w < wcount st'"
      using I by (auto simp: st'_def sig_inv_def)
  qed
  show ?thesis
    apply (rule exI[of _ st'])
    using dc I' by (auto simp: st'_def same_user_def)
qed

lemma destroy_connection_inv:
  assumes I: "sig_inv st s cs D W U" and c: "c \<in> set cs \<union> D" and par: "parent st c = Some s"
  shows "\<exists>st'. destroy_connection c st = Some st'
           \<and> sig_inv st' s (remove1 c cs) (D - {c}) (disc_W c (after c cs) W) (disc_U c (after c cs) W U)
           \<and> same_user st st' \<and> Conn c \<notin> live (cl st') \<and> ConnRoot c \<notin> live (wl st')"
proof (cases "c \<in> D")
  case True
  have Dc: "set cs \<inter> D = {}" "W c = []" using I True by (auto simp: sig_inv_def)
  then have ccs: "c \<notin> set cs" using True by auto
  then have "after c cs = []" by (induction cs) (auto simp: after_def)
  then have e: "disc_W c (after c cs) W = W" "disc_U c (after c cs) W U = U" "remove1 c cs = cs"
    using Dc(2) ccs by (auto simp: disc_W_def disc_U_def remove1_idem fun_eq_iff)
  from destroy_unlinked_inv[OF I True] par show ?thesis unfolding e by simp
next
  case False
  then have "c \<in> set cs" using c by simp
  then obtain as bs where cs: "cs = as @ c # bs" by (auto simp: in_set_conv_decomp)
  have dist: "distinct cs" by (rule inv_distinct[OF I])
  have cas: "c \<notin> set as" using dist cs by auto
  have e: "after c cs = bs" "remove1 c cs = as @ bs"
    using cs cas by (simp_all add: after_decomp remove1_decomp)
  from disconnect_inv[OF I cs par] obtain st1 where
    d: "disconnect c st = Some st1" and
    I1: "sig_inv st1 s (as @ bs) (insert c D) (disc_W c bs W) (disc_U c bs W U)" and
    u1: "same_user st st1"
    by blast
  have p1: "parent st1 c \<noteq> None" using par u1 by (simp add: same_user_def)
  have d1: "disconnect c st1 = Some st1" by (rule disconnect_unlinked[OF I1 _ p1]) simp
  have eq: "destroy_connection c st = destroy_connection c st1"
    using d d1 by (simp add: destroy_connection_def)
  from destroy_unlinked_inv[OF I1 _ p1] obtain st' where
    dd: "destroy_connection c st1 = Some st'" and
    I': "sig_inv st' s (as @ bs) (insert c D - {c}) (disc_W c bs W) (disc_U c bs W U)" and
    u2: "same_user st1 st'" "Conn c \<notin> live (cl st')" "ConnRoot c \<notin> live (wl st')"
    by auto
  have "insert c D - {c} = D - {c}" by auto
  then show ?thesis using eq dd I' u1 u2 e by (auto simp: same_user_def)
qed

lemma dlist_closed:
  assumes d: "dlist L r xs" and x: "x \<in> set (r # xs)" and y: "nxt L x = Some y \<or> prv L x = Some y"
  shows "y \<in> set (r # xs)"
proof (cases "x = r")
  case True
  have "hd (xs @ [r]) \<in> set (r # xs)" by (cases xs) auto
  moreover have "last (r # xs) \<in> set (r # xs)" by (rule last_in_set) simp
  ultimately show ?thesis using dlist_hd(1)[OF d] dlist_last(1)[OF d] y True by auto
next
  case False
  then have "x \<in> set xs" using x by simp
  then obtain as bs where xs: "xs = as @ x # bs" by (auto simp: in_set_conv_decomp)
  have "hd (bs @ [r]) \<in> set (r # xs)" unfolding xs by (cases bs) auto
  moreover have "last (r # as) \<in> set (r # as)" by (rule last_in_set) simp
  then have "last (r # as) \<in> set (r # xs)" unfolding xs by auto
  ultimately show ?thesis using dlist_nxt_prv(1,2)[OF d[unfolded xs]] y by auto
qed

lemma inv_no_dangling:
  assumes I: "sig_inv st s cs D W U"
  shows "no_dangling st"
  unfolding no_dangling_def
proof (intro conjI ballI allI impI)
  fix x y assume x: "x \<in> live (cl st)" and y: "nxt (cl st) x = Some y \<or> prv (cl st) x = Some y"
  have lv: "live (cl st) = insert (SigRoot s) (Conn ` (set cs \<union> D))"
    and Dn: "\<forall>c\<in>D. nxt (cl st) (Conn c) = None \<and> prv (cl st) (Conn c) = None"
    using I by (auto simp: sig_inv_def)
  have "x \<in> set (SigRoot s # map Conn cs)" using x y lv Dn by auto
  from dlist_closed[OF inv_clist[OF I] this y] show "y \<in> live (cl st)" using lv by auto
next
  fix x y assume x: "x \<in> live (wl st)" and y: "nxt (wl st) x = Some y \<or> prv (wl st) x = Some y"
  have lv: "live (wl st) = ConnRoot ` (set cs \<union> D) \<union> Walker ` (parked cs W \<union> U)"
    and Un: "\<forall>w\<in>U. nxt (wl st) (Walker w) = None \<and> prv (wl st) (Walker w) = None"
    using I by (auto simp: sig_inv_def)
  from x y lv Un obtain c where c: "c \<in> set cs \<union> D" "x \<in> set (ConnRoot c # map Walker (W c))"
    by (auto simp: parked_def)
  have sub: "set (ConnRoot c # map Walker (W c)) \<subseteq> live (wl st)"
    using inv_wlist[OF I c(1)] by (simp add: dlist_def)
  from dlist_closed[OF inv_wlist[OF I c(1)] c(2) y] sub show "y \<in> live (wl st)" by blast
next
  fix w y assume a: "Walker w \<in> live (wl st) \<and> held st w = Some y"
  then have "w \<in> parked cs W \<union> U" using inv_live_walker[OF I] by simp
  then show "y \<in> live (cl st)"
  proof
    assume "w \<in> parked cs W"
    then obtain c where c: "c \<in> set cs" "w \<in> set (W c)" by (auto simp: parked_def)
    then have "held st w = Some (Conn c)" using inv_held[OF I, of c w] by simp
    then show ?thesis using a inv_live_conn[OF I, of c] c by simp
  next
    assume "w \<in> U"
    then have "held st w = Some (SigRoot s)" using I by (auto simp: sig_inv_def)
    then show ?thesis using a I by (auto simp: sig_inv_def)
  qed
qed

lemma orphaned_no_dangling: "orphaned st C \<Longrightarrow> no_dangling st"
  unfolding no_dangling_def orphaned_def
  by (auto simp: dlist_def)

lemma orphaned_disconnect: "orphaned st C \<Longrightarrow> c \<in> C \<Longrightarrow> disconnect c st = Some st"
  by (rule disconnect_unlinked_direct) (auto simp: orphaned_def)

lemma orphaned_destroy:
  assumes O: "orphaned st C" and c: "c \<in> C"
  shows "\<exists>st'. destroy_connection c st = Some st' \<and> orphaned st' (C - {c})"
proof -
  have f: "Conn c \<in> live (cl st)" "nxt (cl st) (Conn c) = None" "prv (cl st) (Conn c) = None"
    "dlist (wl st) (ConnRoot c) []" "parent st c \<noteq> None"
    using O c by (auto simp: orphaned_def)
  have "orphaned (st\<lparr>cl := (cl st)\<lparr>live := live (cl st) - {Conn c}\<rparr>,
              wl := (wl st)\<lparr>nxt := (nxt (wl st))(ConnRoot c := None),
                            prv := (prv (wl st))(ConnRoot c := None),
                            live := live (wl st) - {ConnRoot c}\<rparr>\<rparr>) (C - {c})"
    using O by (auto simp: orphaned_def dlist_def)
  then show ?thesis using destroy_unlinked_direct[OF f] by simp
qed

lemma destroy_signal_orphans:
  assumes I: "sig_inv st s cs D (\<lambda>c. []) {}" and par: "\<forall>c\<in>set cs \<union> D. parent st c \<noteq> None"
  shows "\<exists>st'. destroy_signal s st = Some st' \<and> orphaned st' (set cs \<union> D) \<and> same_user st st'
            \<and> SigRoot s \<notin> live (cl st')"
proof -
  let ?r = "SigRoot s"
  let ?L1 = "cleared ?r (map Conn cs) (cl st)"
  have d: "dlist (cl st) ?r (map Conn cs)" by (rule inv_clist[OF I])
  have rl: "?r \<in> live (cl st)" using d by (simp add: dlist_def)
  have c1: "clear ?r (cl st) = Some ?L1" by (rule clear_dlist[OF d])
  have d1: "dlist ?L1 ?r []" by (rule dlist_cleared[OF rl])
  define L2 where "L2 = ?L1\<lparr>nxt := (nxt ?L1)(?r := None), prv := (prv ?L1)(?r := None),
                                   live := live ?L1 - {?r}\<rparr>"
  have dl: "delete_list ?r ?L1 = Some L2" unfolding L2_def by (rule delete_list_empty[OF d1])
  have ds: "destroy_signal s st = Some (st\<lparr>cl := L2\<rparr>)"
    using c1 delete_list_empty[OF d1] unlink_self[of ?r ?L1] rl
    by (simp add: destroy_signal_def delete_list_def delete_element_def L2_def cleared_def)
  have lv: "live (cl st) = insert ?r (Conn ` (set cs \<union> D))"
    and lw: "live (wl st) = ConnRoot ` (set cs \<union> D)"
    and Dn: "\<forall>c\<in>D. nxt (cl st) (Conn c) = None \<and> prv (cl st) (Conn c) = None"
    and wls: "\<forall>c\<in>set cs \<union> D. dlist (wl st) (ConnRoot c) []"
    using I by (auto simp: sig_inv_def parked_def)
  have "orphaned (st\<lparr>cl := L2\<rparr>) (set cs \<union> D)"
    unfolding orphaned_def
  proof (intro conjI ballI)
    show "live (cl (st\<lparr>cl := L2\<rparr>)) = Conn ` (set cs \<union> D)" using lv by (auto simp: L2_def)
    show "live (wl (st\<lparr>cl := L2\<rparr>)) = ConnRoot ` (set cs \<union> D)" using lw by simp
  next
    fix c assume c: "c \<in> set cs \<union> D"
    show "nxt (cl (st\<lparr>cl := L2\<rparr>)) (Conn c) = None" using c Dn by (auto simp: L2_def cleared_def)
    show "prv (cl (st\<lparr>cl := L2\<rparr>)) (Conn c) = None" using c Dn by (auto simp: L2_def cleared_def)
    show "parent (st\<lparr>cl := L2\<rparr>) c \<noteq> None" using c par by auto
    show "dlist (wl (st\<lparr>cl := L2\<rparr>)) (ConnRoot c) []" using c wls by auto
  qed
  then show ?thesis using ds by (auto simp: same_user_def L2_def)
qed

lemma emit_noop:
  assumes I: "sig_inv st s cs D W U" and sl: "\<forall>c\<in>set cs. slot st c = Some []" and len: "length cs < n"
  shows "\<exists>st'. emit n s st = Finished st' \<and> trace st' = trace st @ cs \<and> sig_inv st' s cs D W U"
proof -
  have r: "cs = [] @ cs" by simp
  from loop_noop[OF I r sl len] obtain st' where
    l: "emit_loop n s (Some (hd (map Conn cs @ [SigRoot s]))) st = Finished st'"
      "trace st' = trace st @ cs" "sig_inv st' s cs D W U"
    by blast
  show ?thesis
  proof (cases cs)
    case Nil
    then have "emit n s st = Finished st" by (subst emit_begin[OF I]) simp
    then show ?thesis using I Nil by simp
  next
    case (Cons c cs')
    then have "emit n s st = Finished st'" using l(1) by (subst emit_begin[OF I]) auto
    then show ?thesis using l(2,3) by blast
  qed
qed

lemma disconnect_any:
  assumes I: "sig_inv st s cs D W U" and c: "c \<in> set cs \<union> D" and par: "parent st c = Some s"
  shows "\<exists>st' cs' D' W' U'. disconnect c st = Some st' \<and> sig_inv st' s cs' D' W' U'"
proof (cases "c \<in> D")
  case True
  then have "disconnect c st = Some st" using disconnect_unlinked[OF I True] par by simp
  then show ?thesis using I by blast
next
  case False
  then have "c \<in> set cs" using c by simp
  then obtain as bs where cs: "cs = as @ c # bs" by (auto simp: in_set_conv_decomp)
  from disconnect_inv[OF I cs par] show ?thesis by blast
qed

lemma loop_prefix:
  assumes "sig_inv st s cs D W U" "cs = pre0 @ pre @ rest"
    "\<forall>c'\<in>set pre. slot st c' = Some []" "length pre \<le> n"
  shows "\<exists>st1. emit_loop n s (Some (hd (map Conn (pre @ rest) @ [SigRoot s]))) st
             = emit_loop (n - length pre) s (Some (hd (map Conn rest @ [SigRoot s]))) st1
           \<and> sig_inv st1 s cs D W U \<and> cl st1 = cl st \<and> slot st1 = slot st \<and> flags st1 = flags st
           \<and> parent st1 = parent st \<and> trace st1 = trace st @ pre
           \<and> wcount st1 = wcount st + length pre \<and> live (wl st1) = live (wl st)"
  using assms
proof (induction pre arbitrary: pre0 st n)
  case Nil
  then show ?case by auto
next
  case (Cons a pre)
  then obtain m where n: "n = Suc m" by (cases n) auto
  have ain: "a \<in> set cs" using Cons.prems(2) by simp
  have sa: "slot st a = Some []" using Cons.prems(3) by simp
  from step_noop[OF Cons.prems(1) ain sa, of m] obtain st1 where
    e: "emit_loop (Suc m) s (Some (Conn a)) st = emit_loop m s (nxt (cl st) (Conn a)) st1" and
    I1: "sig_inv st1 s cs D W U" and
    f1: "cl st1 = cl st" "slot st1 = slot st" "flags st1 = flags st" "parent st1 = parent st"
      "trace st1 = trace st @ [a]" "wcount st1 = Suc (wcount st)"
    by blast
  have cs': "cs = (pre0 @ [a]) @ pre @ rest" using Cons.prems(2) by simp
  have nx: "nxt (cl st) (Conn a) = Some (hd (map Conn (pre @ rest) @ [SigRoot s]))"
    using inv_next[OF Cons.prems(1), of pre0 a "pre @ rest"] Cons.prems(2) by simp
  have "\<exists>st2. emit_loop m s (Some (hd (map Conn (pre @ rest) @ [SigRoot s]))) st1
             = emit_loop (m - length pre) s (Some (hd (map Conn rest @ [SigRoot s]))) st2
           \<and> sig_inv st2 s cs D W U \<and> cl st2 = cl st1 \<and> slot st2 = slot st1 \<and> flags st2 = flags st1
           \<and> parent st2 = parent st1 \<and> trace st2 = trace st1 @ pre
           \<and> wcount st2 = wcount st1 + length pre \<and> live (wl st2) = live (wl st1)"
    by (rule Cons.IH[OF I1 cs']) (use Cons.prems f1 n in auto)
  then obtain st2 where
    l: "emit_loop m s (Some (hd (map Conn (pre @ rest) @ [SigRoot s]))) st1
             = emit_loop (m - length pre) s (Some (hd (map Conn rest @ [SigRoot s]))) st2"
      "sig_inv st2 s cs D W U" "cl st2 = cl st1" "slot st2 = slot st1" "flags st2 = flags st1"
      "parent st2 = parent st1" "trace st2 = trace st1 @ pre"
      "wcount st2 = wcount st1 + length pre" "live (wl st2) = live (wl st1)"
    by blast
  have lv: "live (wl st1) = live (wl st)" by (rule inv_live_wl_eq[OF Cons.prems(1) I1])
  show ?case
    apply (rule exI[of _ st2])
    using e nx l f1 n lv by simp
qed

lemma step_raised:
  assumes pk: "park (Some (Conn c)) st = Some (d, c, st1)"
    and gs: "get_slot st1 c = Some (Some f)"
    and rn: "run m f (st1\<lparr>trace := trace st1 @ [c]\<rparr>) = Raised st2"
    and I2: "sig_inv st2 s cs2 D2 W2 U2"
    and d: "(c2 \<in> set cs2 \<and> W2 c2 = ws @ d # ws') \<or> d \<in> U2"
  shows "\<exists>st3. emit_loop (Suc m) s (Some (Conn c)) st = Raised st3
           \<and> sig_inv st3 s cs2 D2 (if d \<in> U2 then W2 else W2(c2 := ws @ ws')) (U2 - {d})
           \<and> cl st3 = cl st2 \<and> same_user st2 st3 \<and> Walker d \<notin> live (wl st3)"
proof (cases "d \<in> U2")
  case True
  from unpark_unparked[OF I2 True] obtain st3 where
    up: "unpark d st2 = Some st3" and I3: "sig_inv st3 s cs2 D2 W2 (U2 - {d})" and
    f3: "cl st3 = cl st2" "same_user st2 st3"
    by blast
  have np: "d \<notin> parked cs2 W2" using I2 True by (auto simp: sig_inv_def)
  have dead: "Walker d \<notin> live (wl st3)" using inv_live_walker[OF I3, of d] np by simp
  have "emit_loop (Suc m) s (Some (Conn c)) st = Raised st3"
    using pk gs rn up by (simp add: end_list_def)
  then show ?thesis using I3 f3 True dead by auto
next
  case False
  then have p: "c2 \<in> set cs2" "W2 c2 = ws @ d # ws'" using d by auto
  from unpark_parked[OF I2 p] obtain st3 where
    up: "unpark d st2 = Some st3" and I3: "sig_inv st3 s cs2 D2 (W2(c2 := ws @ ws')) U2" and
    f3: "cl st3 = cl st2" "same_user st2 st3"
    by blast
  have U: "U2 - {d} = U2" using False by auto
  have dl: "dlist (wl st2) (ConnRoot c2) (map Walker (ws @ d # ws'))"
    using inv_wlist[OF I2, of c2] p by simp
  then have dd: "d \<notin> set ws \<union> set ws'" by (auto simp: dlist_def distinct_map)
  have other: "d \<notin> set (W2 c')" if "c' \<in> set cs2" "c' \<noteq> c2" for c'
    using inv_disjoint[OF I2, of c2 c'] p that by auto
  have "d \<notin> parked cs2 (W2(c2 := ws @ ws'))" using dd other by (auto simp: parked_def split: if_splits)
  then have dead: "Walker d \<notin> live (wl st3)" using inv_live_walker[OF I3, of d] False by simp
  have "emit_loop (Suc m) s (Some (Conn c)) st = Raised st3"
    using pk gs rn up by (simp add: end_list_def)
  then show ?thesis using I3 f3 False U dead by auto
qed

lemma step_disconnect_throw:
  assumes I: "sig_inv st s cs D W U" and cs: "cs = pre @ c # post"
    and sl: "slot st c = Some (Disconnect c # Throw # rest)" and par: "parent st c = Some s"
  shows "\<exists>st'. emit_loop (Suc m) s (Some (Conn c)) st = Raised st'
           \<and> sig_inv st' s (pre @ post) (insert c D) (disc_W c post W) (disc_U c post W U)
           \<and> trace st' = trace st @ [c] \<and> wcount st' = Suc (wcount st)"
proof -
  define d where "d = wcount st"
  have cin: "c \<in> set cs" using cs by simp
  from park_inv[OF I cin] obtain st1 where
    pk: "park (Some (Conn c)) st = Some (d, c, st1)" and
    I1: "sig_inv st1 s cs D (W(c := d # W c)) U" and
    f1: "cl st1 = cl st" "same_user st st1" "wcount st1 = Suc d"
    unfolding d_def by blast
  define st1' where "st1' = st1\<lparr>trace := trace st1 @ [c]\<rparr>"
  let ?W1 = "W(c := d # W c)"
  have I1': "sig_inv st1' s cs D ?W1 U" using I1 by (simp add: st1'_def inv_trace_upd)
  have p1: "parent st1' c = Some s" using par f1(2) by (simp add: st1'_def same_user_def)
  from disconnect_inv[OF I1' cs p1] obtain st2 where
    dc: "disconnect c st1' = Some st2" and
    I2: "sig_inv st2 s (pre @ post) (insert c D) (disc_W c post ?W1) (disc_U c post ?W1 U)" and
    f2: "same_user st1' st2" "wcount st2 = wcount st1'"
    by blast
  have lvc: "Conn c \<in> live (cl st1)" using inv_live_conn[OF I1] cin by simp
  have gs: "get_slot st1 c = Some (Some (Disconnect c # Throw # rest))"
    using lvc f1(2) sl by (simp add: get_slot_def same_user_def)
  have rn: "run m (Disconnect c # Throw # rest) (st1\<lparr>trace := trace st1 @ [c]\<rparr>) = Raised st2"
    using dc by (simp add: st1'_def)
  have dist: "distinct cs" by (rule inv_distinct[OF I])
  have bnd: "\<forall>w\<in>parked cs W \<union> U. w < wcount st" using I by (simp add: sig_inv_def)
  have "set (W c) \<subseteq> parked cs W" using cin by (auto simp: parked_def)
  then have dU: "d \<notin> U" "d \<notin> set (W c)" using bnd unfolding d_def by fastforce+
  have tr: "trace st2 = trace st @ [c]" "wcount st2 = Suc (wcount st)"
    using f1 f2 by (auto simp: same_user_def st1'_def d_def)
  show ?thesis
  proof (cases post)
    case Nil
    have W2: "disc_W c post ?W1 = W(c := [])" and U2: "disc_U c post ?W1 U = insert d (U \<union> set (W c))"
      using Nil by (auto simp: disc_W_def disc_U_def)
    have dU2: "(c \<in> set (pre @ post) \<and> (disc_W c post ?W1) c = [] @ d # []) \<or> d \<in> disc_U c post ?W1 U"
      using U2 by simp
    from step_raised[OF pk gs rn I2 dU2] obtain st3 where
      e: "emit_loop (Suc m) s (Some (Conn c)) st = Raised st3" and
      I3: "sig_inv st3 s (pre @ post) (insert c D)
             (if d \<in> disc_U c post ?W1 U then disc_W c post ?W1 else (disc_W c post ?W1)(c := [] @ []))
             (disc_U c post ?W1 U - {d})" and
      f3: "same_user st2 st3"
      by blast
    have e1: "disc_U c post ?W1 U - {d} = disc_U c post W U" using U2 dU Nil by (auto simp: disc_U_def)
    have e2: "(if d \<in> disc_U c post ?W1 U then disc_W c post ?W1 else (disc_W c post ?W1)(c := [] @ []))
               = disc_W c post W"
      using U2 W2 Nil by (auto simp: disc_W_def)
    have I3': "sig_inv st3 s (pre @ post) (insert c D) (disc_W c post W) (disc_U c post W U)"
      using I3 unfolding e1 e2 .
    have "wcount st3 = wcount st2"
      using unpark_unparked[OF I2, of d] U2 e pk gs rn by (auto simp: end_list_def)
    then show ?thesis using e I3' f3 tr by (auto simp: same_user_def)
  next
    case (Cons b bs)
    have bc: "b \<noteq> c" "b \<in> set cs" using dist cs Cons by auto
    have W2: "disc_W c post ?W1 = W(c := [], b := (d # W c) @ W b)"
      and U2: "disc_U c post ?W1 U = U"
      using Cons bc by (auto simp: disc_W_def disc_U_def)
    have dU2: "(b \<in> set (pre @ post) \<and> (disc_W c post ?W1) b = [] @ d # (W c @ W b)) \<or> d \<in> disc_U c post ?W1 U"
      using W2 Cons by simp
    from step_raised[OF pk gs rn I2 dU2] obtain st3 where
      e: "emit_loop (Suc m) s (Some (Conn c)) st = Raised st3" and
      I3: "sig_inv st3 s (pre @ post) (insert c D)
             (if d \<in> disc_U c post ?W1 U then disc_W c post ?W1 else (disc_W c post ?W1)(b := [] @ (W c @ W b)))
             (disc_U c post ?W1 U - {d})" and
      f3: "same_user st2 st3"
      by blast
    have e1: "disc_U c post ?W1 U - {d} = disc_U c post W U" using U2 dU Cons by (auto simp: disc_U_def)
    have e2: "(if d \<in> disc_U c post ?W1 U then disc_W c post ?W1 else (disc_W c post ?W1)(b := [] @ (W c @ W b)))
               = disc_W c post W"
      using U2 W2 dU Cons by (auto simp: disc_W_def)
    have I3': "sig_inv st3 s (pre @ post) (insert c D) (disc_W c post W) (disc_U c post W U)"
      using I3 unfolding e1 e2 .
    have "wcount st3 = wcount st2"
      using unpark_parked[OF I2, of b "[]" d "W c @ W b"] W2 Cons e pk gs rn by (auto simp: end_list_def)
    then show ?thesis using e I3' f3 tr by (auto simp: same_user_def)
  qed
qed

lemma disc_parked_subset:
  assumes "c \<in> set cs" "set cs' \<subseteq> set cs" "set post \<subseteq> set cs"
  shows "parked cs' (disc_W c post W) \<union> disc_U c post W U \<subseteq> parked cs W \<union> U"
  using assms by (auto simp: parked_def disc_W_def disc_U_def split: list.splits if_splits) blast+











section \<open>Erasing an element\<close>

text \<open>
  C4.  In a well-formed list with members \<open>as @ x # bs\<close>, \<open>unlink\<close> of \<open>x\<close> and \<open>erase\<close> at
  \<open>x\<close> return the successor of \<open>x\<close> and give the same memory, in which the links of \<open>x\<close>
  are null, the predecessor and the successor of \<open>x\<close> are linked to each other, no
  other \<open>next\<close> field and no other \<open>prev\<close> field has changed, the same objects are
  live, and the list is well-formed with members \<open>as @ bs\<close>: every position other
  than \<open>x\<close> (the root or a member) is a position of the resulting list.
\<close>

theorem unlink_erase_frame:
  assumes "dlist L r (as @ x # bs)"
  shows "\<exists>L'. unlink x L = Some (Some (hd (bs @ [r])), L')
           \<and> erase (Some x) L = Some (Some (hd (bs @ [r])), L')
           \<and> nxt L' x = None \<and> prv L' x = None
           \<and> nxt L' (last (r # as)) = Some (hd (bs @ [r]))
           \<and> prv L' (hd (bs @ [r])) = Some (last (r # as))
           \<and> (\<forall>y. y \<noteq> x \<and> y \<noteq> last (r # as) \<longrightarrow> nxt L' y = nxt L y)
           \<and> (\<forall>y. y \<noteq> x \<and> y \<noteq> hd (bs @ [r]) \<longrightarrow> prv L' y = prv L y)
           \<and> live L' = live L
           \<and> dlist L' r (as @ bs)
           \<and> set (r # as @ bs) = set (r # as @ x # bs) - {x}"
proof -
  let ?L = "L\<lparr>nxt := (nxt L)(last (r # as) := Some (hd (bs @ [r])), x := None),
             prv := (prv L)(hd (bs @ [r]) := Some (last (r # as)), x := None)\<rparr>"
  note np = dlist_nxt_prv[OF assms]
  have u: "unlink x L = Some (Some (hd (bs @ [r])), ?L)" by (rule unlink_dlist[OF assms])
  have e: "erase (Some x) L = Some (Some (hd (bs @ [r])), ?L)"
    using u np by (simp add: erase_def deref_def get_next_def)
  have d: "dlist ?L r (as @ bs)" by (rule dlist_unlink[OF assms])
  have s: "set (r # as @ bs) = set (r # as @ x # bs) - {x}"
    using assms by (auto simp: dlist_def)
  show ?thesis
    apply (rule exI[of _ ?L])
    using u e d s np by simp
qed

theorem unlink_erase_frame_witness:
  "dlist links123 0 ([1] @ 2 # [3]) \<and>
   (\<exists>L'. unlink 2 links123 = Some (Some 3, L') \<and> erase (Some 2) links123 = Some (Some 3, L')
      \<and> nxt L' 2 = None \<and> prv L' 2 = None \<and> nxt L' 1 = Some 3 \<and> prv L' 3 = Some 1
      \<and> nxt L' 0 = Some 1 \<and> prv L' 0 = Some 3 \<and> dlist L' 0 [1, 3])"
proof -
  have h: "dlist links123 0 ([1] @ 2 # [3])" by (simp add: dlist_def links123_def)
  from unlink_erase_frame[OF h] obtain L' where
    "unlink 2 links123 = Some (Some 3, L')" "erase (Some 2) links123 = Some (Some 3, L')"
    "nxt L' 2 = None" "prv L' 2 = None" "nxt L' 1 = Some 3" "prv L' 3 = Some 1"
    "\<forall>y. y \<noteq> 2 \<and> y \<noteq> 1 \<longrightarrow> nxt L' y = nxt links123 y"
    "\<forall>y. y \<noteq> 2 \<and> y \<noteq> 3 \<longrightarrow> prv L' y = prv links123 y"
    "dlist L' 0 [1, 3]"
    by auto
  then show ?thesis using h by (auto simp: links123_def)
qed

section \<open>Emission without mutation\<close>

text \<open>
  C3.  From a well-formed state in which every linked connection has a slot that does
  nothing, connecting further slots that do nothing, each in fresh storage, puts them
  in front of the list, the most recent first; an emission with fuel for one step per
  connection then returns, and has invoked exactly the linked connections, each once,
  in list order, that is, most recently connected first.
\<close>

theorem emit_most_recent_first:
  assumes "sig_inv st s cs D W U" "\<forall>c\<in>set cs. slot st c = Some []"
    "distinct ks" "set ks \<inter> (set cs \<union> D) = {}" "length ks + length cs < n"
  shows "\<exists>st1 st2. connect_all s (map (\<lambda>k. (k, [])) ks) st = Some st1
           \<and> sig_inv st1 s (rev ks @ cs) D (\<lambda>c. if c \<in> set ks then [] else W c) U
           \<and> emit n s st1 = Finished st2
           \<and> trace st2 = trace st @ rev ks @ cs
           \<and> sig_inv st2 s (rev ks @ cs) D (\<lambda>c. if c \<in> set ks then [] else W c) U"
proof -
  let ?ks = "map (\<lambda>k. (k, [] :: action list)) ks"
  let ?W = "\<lambda>c. if c \<in> set ks then [] else W c"
  have m: "map fst ?ks = ks" by (simp add: comp_def)
  have i: "fst ` set ?ks = set ks" by (simp add: image_comp comp_def)
  have A: "distinct (map fst ?ks)" unfolding m by (rule assms(3))
  have B: "fst ` set ?ks \<inter> (set cs \<union> D) = {}" unfolding i by (rule assms(4))
  from connect_all_inv[OF assms(1) A B] obtain st1 where
    c: "connect_all s ?ks st = Some st1" and
    I0: "sig_inv st1 s (rev (map fst ?ks) @ cs) D (\<lambda>c. if c \<in> fst ` set ?ks then [] else W c) U" and
    f0: "\<forall>k\<in>set ?ks. slot st1 (fst k) = Some (snd k)" "\<forall>c. c \<notin> fst ` set ?ks \<longrightarrow> slot st1 c = slot st c"
      "trace st1 = trace st"
    by blast
  have I1: "sig_inv st1 s (rev ks @ cs) D ?W U" using I0 unfolding m i .
  have f: "\<forall>c\<in>set ks. slot st1 c = Some []" "\<forall>c. c \<notin> set ks \<longrightarrow> slot st1 c = slot st c"
      "trace st1 = trace st"
    using f0 unfolding i by auto
  have sl: "\<forall>c\<in>set (rev ks @ cs). slot st1 c = Some []"
  proof
    fix c assume "c \<in> set (rev ks @ cs)"
    then show "slot st1 c = Some []" using f(1,2) assms(2) by (cases "c \<in> set ks") auto
  qed
  have "rev ks @ cs = [] @ (rev ks @ cs)" by simp
  from loop_noop[OF I1 this sl, of n] assms(5) obtain st2 where
    l: "emit_loop n s (Some (hd (map Conn (rev ks @ cs) @ [SigRoot s]))) st1 = Finished st2"
      "sig_inv st2 s (rev ks @ cs) D ?W U" "trace st2 = trace st1 @ rev ks @ cs"
    by auto
  have "emit n s st1 = Finished st2"
  proof (cases "rev ks @ cs = []")
    case True
    then have "emit_loop n s (Some (SigRoot s)) st1 = Finished st2" using l(1) by simp
    moreover have "emit_loop n s (Some (SigRoot s)) st1 = Finished st1"
      using assms(5) by (cases n) (auto simp: end_list_def)
    ultimately show ?thesis using True by (subst emit_begin[OF I1]) simp
  next
    case False
    then have "hd (map Conn (rev ks @ cs) @ [SigRoot s]) = Conn (hd (rev ks @ cs))"
      by (cases "rev ks @ cs") auto
    then show ?thesis using False l(1) by (subst emit_begin[OF I1]) auto
  qed
  then show ?thesis using c I1 l f(3) by auto
qed

theorem emit_most_recent_first_witness:
  "sig_inv sig0 0 [] {} (\<lambda>c. []) {} \<and> distinct [1, 2, 3 :: nat]
   \<and> set [1, 2, 3 :: nat] \<inter> (set [] \<union> {}) = {} \<and> length [1, 2, 3 :: nat] + length ([] :: nat list) < 4
   \<and> (\<exists>st1 st2. connect_all 0 [(1, []), (2, []), (3, [])] sig0 = Some st1
         \<and> emit 4 0 st1 = Finished st2 \<and> trace st2 = [3, 2, 1])"
proof -
  have h: "sig_inv sig0 0 [] {} (\<lambda>c. []) {}" using sig0_inv by simp
  have t: "trace sig0 = []" by (simp add: sig0_def heap0_def)
  from emit_most_recent_first[OF h, of "[1, 2, 3]" 4] t
  show ?thesis using h by auto
qed

section \<open>The scenario of the slots A, B and C\<close>

text \<open>
  C2.  A, B and C are connected in this order, in storage 1, 2 and 3; the slot of B
  disconnects A.  The first emission returns and has invoked C, then B, and not A; the
  second returns and has invoked C, then B, again.
\<close>

theorem scenario_abc:
  "(case connect_all 0 [(1, []), (2, [Disconnect 1]), (3, [])] sig0 of
      None \<Rightarrow> False
    | Some st1 \<Rightarrow>
       (case emit 4 0 st1 of
          Finished st2 \<Rightarrow> trace st2 = [3, 2] \<and>
            (case emit 3 0 st2 of
               Finished st3 \<Rightarrow> trace st3 = [3, 2, 3, 2]
             | _ \<Rightarrow> False)
        | _ \<Rightarrow> False))"
  by code_simp

section \<open>Disconnecting twice\<close>

text \<open>
  C9.  For a connection \<open>X\<close> of the signal whose \<open>parent\<close> is the signal (as \<open>connect\<close>
  sets it), linked or not: \<open>disconnect\<close> returns, a second \<open>disconnect\<close> returns
  too and changes nothing at all, and when \<open>X\<close> was not linked already the first
  changes nothing either.
\<close>

theorem disconnect_idempotent:
  assumes "sig_inv st s cs D W U" "X \<in> set cs \<union> D" "parent st X = Some s"
  shows "\<exists>st1. disconnect X st = Some st1 \<and> disconnect X st1 = Some st1
           \<and> (X \<in> D \<longrightarrow> st1 = st)"
proof (cases "X \<in> D")
  case True
  have "disconnect X st = Some st" by (rule disconnect_unlinked[OF assms(1) True]) (use assms(3) in simp)
  then show ?thesis by simp
next
  case False
  then have "X \<in> set cs" using assms(2) by simp
  then obtain as bs where cs: "cs = as @ X # bs" by (auto simp: in_set_conv_decomp)
  from disconnect_inv[OF assms(1) cs assms(3)] obtain st1 where
    d: "disconnect X st = Some st1" and
    I1: "sig_inv st1 s (as @ bs) (insert X D) (disc_W X bs W) (disc_U X bs W U)" and
    u: "same_user st st1"
    by blast
  have "parent st1 X \<noteq> None" using u assms(3) by (simp add: same_user_def)
  then have "disconnect X st1 = Some st1" by (intro disconnect_unlinked[OF I1]) auto
  then show ?thesis using d False by simp
qed

theorem disconnect_idempotent_witness:
  "\<exists>st. connect 0 1 [] sig0 = Some st \<and> sig_inv st 0 [1] {} (\<lambda>c. []) {} \<and> parent st 1 = Some 0
     \<and> (\<exists>st1. disconnect 1 st = Some st1 \<and> disconnect 1 st1 = Some st1 \<and> trace st1 = [])"
proof -
  have h: "sig_inv sig0 0 [] {} (\<lambda>c. []) {}" using sig0_inv by simp
  from connect_inv[OF h, of 1 "[]"] obtain st where
    c: "connect 0 1 [] sig0 = Some st" and I: "sig_inv st 0 [1] {} ((\<lambda>c. [])(1 := [])) {}" and
    p: "parent st = (parent sig0)(1 := Some 0)" and t: "trace st = trace sig0"
    by auto
  have I': "sig_inv st 0 [1] {} (\<lambda>c. []) {}" using I by (simp add: fun_upd_idem)
  have p1: "parent st 1 = Some 0" using p by simp
  from disconnect_idempotent[OF I' _ p1] obtain st1 where
    d: "disconnect 1 st = Some st1" "disconnect 1 st1 = Some st1" by auto
  from disconnect_inv[OF I' _ p1, where as="[]" and bs="[]"] d(1) have "same_user st st1" by auto
  then have "trace st1 = []" using t by (simp add: same_user_def sig0_def heap0_def)
  then show ?thesis using c I' p1 d by blast
qed

section \<open>One disconnect during an emission\<close>

text \<open>
  What holds when the disconnected connection has the parent that \<open>connect\<close> gave it.
  The connections are \<open>pre @ c # post\<close> in list order; the slot of \<open>c\<close> disconnects
  one linked connection \<open>X\<close> (which may be \<open>c\<close> itself, the successor of \<open>c\<close>, or any
  other one, visited or not) whose \<open>parent\<close> is the signal; the other slots do nothing.
  Then an emission with fuel for one step per connection returns; it has invoked
  \<open>pre\<close>, then \<open>c\<close>, and after the slot of \<open>c\<close> returned exactly the unvisited remainder
  \<open>post\<close> without \<open>X\<close>, in list order, no connection twice.  When \<open>X\<close> is \<open>c\<close> this is
  all of \<open>post\<close>: the traversal resumes at the former successor of \<open>c\<close>, and ends if
  there is none.  The state is well-formed afterwards, with \<open>X\<close> unlinked.
\<close>

theorem emit_with_disconnect:
  assumes "sig_inv st s cs D W U" "cs = pre @ c # post"
    "slot st c = Some [Disconnect X]" "\<forall>c'\<in>set pre \<union> set post. slot st c' = Some []"
    "X \<in> set cs" "parent st X = Some s" "length cs < n"
  shows "\<exists>st'. emit n s st = Finished st'
           \<and> trace st' = trace st @ pre @ c # remove1 X post
           \<and> distinct (pre @ c # remove1 X post)
           \<and> (X = c \<longrightarrow> remove1 X post = post)
           \<and> sig_inv st' s (remove1 X cs) (insert X D) (disc_W X (after X cs) W) (disc_U X (after X cs) W U)"
proof -
  have dist: "distinct cs" by (rule inv_distinct[OF assms(1)])
  have cs0: "cs = [] @ pre @ c # post" using assms(2) by simp
  have len: "length (pre @ c # post) < n" using assms(2,7) by simp
  from loop_disconnect[OF assms(1) cs0 assms(3,4,5,6) len] obtain st' where
    l: "emit_loop n s (Some (hd (map Conn (pre @ c # post) @ [SigRoot s]))) st = Finished st'"
      "trace st' = trace st @ pre @ c # remove1 X post"
      "sig_inv st' s (remove1 X cs) (insert X D) (disc_W X (after X cs) W) (disc_U X (after X cs) W U)"
    by blast
  have "hd (map Conn (pre @ c # post) @ [SigRoot s]) = Conn (hd cs)" using assms(2) by (cases pre) auto
  then have "emit n s st = Finished st'"
    using l(1) assms(2) by (subst emit_begin[OF assms(1)]) auto
  moreover have "distinct (pre @ c # remove1 X post)"
    using dist assms(2) by (auto dest: notin_set_remove1)
  moreover have "X = c \<longrightarrow> remove1 X post = post"
    using dist assms(2) by (auto simp: remove1_idem)
  ultimately show ?thesis using l by blast
qed

theorem emit_with_disconnect_example:
  "\<exists>st. connect_all 0 [(1, []), (2, [Disconnect 1]), (3, [])] sig0 = Some st
     \<and> sig_inv st 0 ([3] @ 2 # [1]) {} (\<lambda>c. []) {}
     \<and> slot st 2 = Some [Disconnect 1] \<and> parent st 1 = Some 0
     \<and> (\<exists>st'. emit 4 0 st = Finished st' \<and> trace st' = [3, 2]
           \<and> sig_inv st' 0 [3, 2] {1} (\<lambda>c. []) {})"
proof -
  have h: "sig_inv sig0 0 [] {} (\<lambda>c. []) {}" using sig0_inv by simp
  let ?ks = "[(1, []), (2, [Disconnect 1]), (3, [])] :: (nat \<times> action list) list"
  from connect_all_inv[OF h, of ?ks] obtain st where
    c: "connect_all 0 ?ks sig0 = Some st" and
    I0: "sig_inv st 0 (rev (map fst ?ks) @ []) {} (\<lambda>c. if c \<in> fst ` set ?ks then [] else []) {}" and
    f: "\<forall>k\<in>set ?ks. slot st (fst k) = Some (snd k)" "trace st = trace sig0"
      "\<forall>k\<in>set ?ks. parent st (fst k) = Some 0"
    by auto
  have I: "sig_inv st 0 ([3] @ 2 # [1]) {} (\<lambda>c. []) {}" using I0 by simp
  have p: "parent st 1 = Some 0" using f(3) by simp
  have s2: "slot st 2 = Some [Disconnect 1]" and s13: "\<forall>c'\<in>set [3] \<union> set [1]. slot st c' = Some []"
    using f(1) by auto
  have t: "trace st = []" using f(2) by (simp add: sig0_def heap0_def)
  from emit_with_disconnect[OF I refl s2 s13 _ p, of 4] t obtain st' where
    e: "emit 4 0 st = Finished st'" "trace st' = [3, 2]"
      "sig_inv st' 0 (remove1 1 ([3] @ 2 # [1])) (insert 1 {}) (disc_W 1 (after 1 ([3] @ 2 # [1])) (\<lambda>c. []))
         (disc_U 1 (after 1 ([3] @ 2 # [1])) (\<lambda>c. []) {})"
    by auto
  have "disc_W 1 (after 1 ([3] @ 2 # [1])) (\<lambda>c. []) = (\<lambda>c. [])"
    by (simp add: disc_W_def after_def fun_upd_idem)
  moreover have "disc_U 1 (after 1 ([3] @ 2 # [1])) (\<lambda>c. []) {} = {}"
    by (simp add: disc_U_def after_def)
  ultimately have "sig_inv st' 0 [3, 2] {1} (\<lambda>c. []) {}" using e(3) by simp
  then show ?thesis using c I s2 p e by blast
qed

text \<open>
  C1.  An emission in which a slot disconnects a connection of the signal is not
  well-defined when that connection has been moved: the move constructor leaves
  \<open>parent\<close> indeterminate, and \<open>disconnect\<close> reads it.  The connection in storage 1 is
  connected to signal 0 with a slot that disconnects the connection in storage 2, and is
  then moved to storage 2: the list links 2, the current and last connection, whose
  slot disconnects it.  The emission has no result.  Without the move (the slot of 1
  disconnects 1) the emission returns, having invoked 1, and ends there.
\<close>

theorem emit_disconnect_moved_faults:
  "(case connect 0 1 [Disconnect 2] sig0 of
      None \<Rightarrow> False
    | Some st1 \<Rightarrow>
        (case move_construct 2 1 st1 of
           None \<Rightarrow> False
         | Some st2 \<Rightarrow>
             nxt (cl st2) (SigRoot 0) = Some (Conn 2) \<and> nxt (cl st2) (Conn 2) = Some (SigRoot 0) \<and>
             slot st2 2 = Some [Disconnect 2] \<and> parent st2 2 = None \<and>
             (case emit 5 0 st2 of Fault \<Rightarrow> True | _ \<Rightarrow> False)))
   \<and> (case connect 0 1 [Disconnect 1] sig0 of
      None \<Rightarrow> False
    | Some st1 \<Rightarrow>
        (case emit 5 0 st1 of
           Finished st2 \<Rightarrow> trace st2 = [1] \<and> nxt (cl st2) (SigRoot 0) = Some (SigRoot 0)
         | _ \<Rightarrow> False))"
  by code_simp

section \<open>A slot that raises\<close>

text \<open>
  C8.  The connections are \<open>pre @ c # post\<close> and the slots of \<open>pre\<close> do nothing.

  When the slot of \<open>c\<close> raises at once, the emission ends by that exception, with the
  state in which the exception left the slot but for the walkers: \<open>pre\<close> and \<open>c\<close> have
  been invoked and no connection of \<open>post\<close>; the state is well-formed with the same
  connection list and the same parked walkers as before the emission, so the walkers
  planted by the emission (numbered from \<open>wcount st\<close> on, one per step) are all
  unlinked and dead, as after a step that returns.

  When the slot of \<open>c\<close> disconnects \<open>c\<close> and then raises, the walker of the step has
  been redirected before the exception: moved to the successor of \<open>c\<close>, or unparked
  with the end of the list as its position.  The emission ends by the exception all
  the same, the walker is unlinked and dead, and the state is the well-formed one that
  \<open>disconnect\<close> of \<open>c\<close> outside an emission would have given.

  The last part is the rule for any slot: if the slot of \<open>c\<close> leaves by an exception in
  a well-formed state, in which the walker \<open>d\<close> of the step is parked on some linked
  connection or unparked, then the step ends by the exception, with \<open>d\<close> unlinked and
  dead, the connection list as the slot left it and the state well-formed.
\<close>

theorem emit_slot_raises:
  assumes "sig_inv st s cs D W U" "cs = pre @ c # post"
    "\<forall>c'\<in>set pre. slot st c' = Some []" "length pre < n"
  shows "(slot st c = Some (Throw # rest)
            \<longrightarrow> (\<exists>st'. emit n s st = Raised st'
                  \<and> trace st' = trace st @ pre @ [c]
                  \<and> sig_inv st' s cs D W U
                  \<and> cl st' = cl st \<and> live (wl st') = live (wl st)
                  \<and> wcount st' = wcount st + length pre + 1
                  \<and> (\<forall>w. wcount st \<le> w \<longrightarrow> Walker w \<notin> live (wl st'))))
       \<and> (slot st c = Some (Disconnect c # Throw # rest) \<and> parent st c = Some s
            \<longrightarrow> (\<exists>st'. emit n s st = Raised st'
                  \<and> trace st' = trace st @ pre @ [c]
                  \<and> sig_inv st' s (pre @ post) (insert c D) (disc_W c post W) (disc_U c post W U)
                  \<and> (\<forall>w. wcount st \<le> w \<longrightarrow> Walker w \<notin> live (wl st'))))
       \<and> (\<forall>m d st1 f st2 cs2 D2 W2 U2 c2 ws ws'.
            park (Some (Conn c)) st = Some (d, c, st1) \<and> get_slot st1 c = Some (Some f)
            \<and> run m f (st1\<lparr>trace := trace st1 @ [c]\<rparr>) = Raised st2
            \<and> sig_inv st2 s cs2 D2 W2 U2
            \<and> ((c2 \<in> set cs2 \<and> W2 c2 = ws @ d # ws') \<or> d \<in> U2)
            \<longrightarrow> (\<exists>st3. emit_loop (Suc m) s (Some (Conn c)) st = Raised st3
                  \<and> sig_inv st3 s cs2 D2 (if d \<in> U2 then W2 else W2(c2 := ws @ ws')) (U2 - {d})
                  \<and> cl st3 = cl st2 \<and> trace st3 = trace st2
                  \<and> Walker d \<notin> live (wl st3)))"
proof (intro conjI allI impI)
  assume sl: "slot st c = Some (Throw # rest)"
  have cs0: "cs = [] @ pre @ c # post" using assms(2) by simp
  from loop_throw[OF assms(1) cs0 sl assms(3,4)] obtain st' where
    l: "emit_loop n s (Some (hd (map Conn (pre @ c # post) @ [SigRoot s]))) st = Raised st'"
      "trace st' = trace st @ pre @ [c]" "sig_inv st' s cs D W U"
      "cl st' = cl st" "wcount st' = wcount st + length pre + 1"
    by blast
  have "hd (map Conn (pre @ c # post) @ [SigRoot s]) = Conn (hd cs)" using assms(2) by (cases pre) auto
  then have e: "emit n s st = Raised st'"
    using l(1) assms(2) by (subst emit_begin[OF assms(1)]) auto
  have lv: "live (wl st') = live (wl st)" by (rule inv_live_wl_eq[OF assms(1) l(3)])
  have "\<forall>w. wcount st \<le> w \<longrightarrow> Walker w \<notin> live (wl st')"
    using inv_walker_bound[OF assms(1)] lv by fastforce
  then show "\<exists>st'. emit n s st = Raised st'
                  \<and> trace st' = trace st @ pre @ [c]
                  \<and> sig_inv st' s cs D W U
                  \<and> cl st' = cl st \<and> live (wl st') = live (wl st)
                  \<and> wcount st' = wcount st + length pre + 1
                  \<and> (\<forall>w. wcount st \<le> w \<longrightarrow> Walker w \<notin> live (wl st'))"
    using e l lv by blast
next
  assume h: "slot st c = Some (Disconnect c # Throw # rest) \<and> parent st c = Some s"
  have cs0: "cs = [] @ pre @ (c # post)" using assms(2) by simp
  have len: "length pre \<le> n" using assms(4) by simp
  from loop_prefix[OF assms(1) cs0 assms(3) len] obtain st1 where
    l: "emit_loop n s (Some (hd (map Conn (pre @ c # post) @ [SigRoot s]))) st
          = emit_loop (n - length pre) s (Some (hd (map Conn (c # post) @ [SigRoot s]))) st1"
      "sig_inv st1 s cs D W U" "slot st1 = slot st" "parent st1 = parent st"
      "trace st1 = trace st @ pre" "wcount st1 = wcount st + length pre"
    by blast
  obtain m where m: "n - length pre = Suc m" using assms(4) by (cases "n - length pre") auto
  have sl1: "slot st1 c = Some (Disconnect c # Throw # rest)" and p1: "parent st1 c = Some s"
    using h l(3,4) by simp_all
  from step_disconnect_throw[OF l(2) assms(2) sl1 p1, of m] obtain st' where
    s: "emit_loop (Suc m) s (Some (Conn c)) st1 = Raised st'"
      "sig_inv st' s (pre @ post) (insert c D) (disc_W c post W) (disc_U c post W U)"
      "trace st' = trace st1 @ [c]"
    by blast
  have "hd (map Conn (pre @ c # post) @ [SigRoot s]) = Conn (hd cs)" using assms(2) by (cases pre) auto
  then have e: "emit n s st = Raised st'"
    using l(1) s(1) m assms(2) by (subst emit_begin[OF assms(1)]) auto
  have cin: "c \<in> set cs" and sub: "set (pre @ post) \<subseteq> set cs" "set post \<subseteq> set cs"
    using assms(2) by auto
  have dead: "\<forall>w. wcount st \<le> w \<longrightarrow> Walker w \<notin> live (wl st')"
  proof (intro allI impI)
    fix w assume w: "wcount st \<le> w"
    show "Walker w \<notin> live (wl st')"
    proof
      assume "Walker w \<in> live (wl st')"
      then have "w \<in> parked (pre @ post) (disc_W c post W) \<union> disc_U c post W U"
        using inv_live_walker[OF s(2)] by simp
      then have "w \<in> parked cs W \<union> U" using disc_parked_subset[OF cin sub] by blast
      then have "Walker w \<in> live (wl st)" using inv_live_walker[OF assms(1)] by simp
      from inv_walker_bound[OF assms(1) this] w show False by simp
    qed
  qed
  show "\<exists>st'. emit n s st = Raised st'
                  \<and> trace st' = trace st @ pre @ [c]
                  \<and> sig_inv st' s (pre @ post) (insert c D) (disc_W c post W) (disc_U c post W U)
                  \<and> (\<forall>w. wcount st \<le> w \<longrightarrow> Walker w \<notin> live (wl st'))"
    using e s(2,3) l(5) dead by auto
next
  fix m d st1 f st2 cs2 D2 W2 U2 c2 ws ws'
  assume h: "park (Some (Conn c)) st = Some (d, c, st1) \<and> get_slot st1 c = Some (Some f)
            \<and> run m f (st1\<lparr>trace := trace st1 @ [c]\<rparr>) = Raised st2
            \<and> sig_inv st2 s cs2 D2 W2 U2
            \<and> ((c2 \<in> set cs2 \<and> W2 c2 = ws @ d # ws') \<or> d \<in> U2)"
  then have pk: "park (Some (Conn c)) st = Some (d, c, st1)" and gs: "get_slot st1 c = Some (Some f)"
    and rn: "run m f (st1\<lparr>trace := trace st1 @ [c]\<rparr>) = Raised st2"
    and I2: "sig_inv st2 s cs2 D2 W2 U2"
    and dd: "(c2 \<in> set cs2 \<and> W2 c2 = ws @ d # ws') \<or> d \<in> U2"
    by simp_all
  from step_raised[OF pk gs rn I2 dd] show "\<exists>st3. emit_loop (Suc m) s (Some (Conn c)) st = Raised st3
                  \<and> sig_inv st3 s cs2 D2 (if d \<in> U2 then W2 else W2(c2 := ws @ ws')) (U2 - {d})
                  \<and> cl st3 = cl st2 \<and> trace st3 = trace st2
                  \<and> Walker d \<notin> live (wl st3)"
    by (auto simp: same_user_def)
qed

theorem emit_slot_raises_witness:
  "(\<exists>st. connect_all 0 [(1, []), (2, [Throw]), (3, [])] sig0 = Some st
     \<and> sig_inv st 0 ([3] @ 2 # [1]) {} (\<lambda>c. []) {} \<and> slot st 2 = Some [Throw]
     \<and> (\<exists>st'. emit 2 0 st = Raised st' \<and> trace st' = [3, 2]
           \<and> sig_inv st' 0 [3, 2, 1] {} (\<lambda>c. []) {} \<and> wcount st' = 2))
   \<and> (\<exists>st. connect_all 0 [(1, []), (2, [Disconnect 2, Throw]), (3, [])] sig0 = Some st
     \<and> sig_inv st 0 ([3] @ 2 # [1]) {} (\<lambda>c. []) {} \<and> slot st 2 = Some [Disconnect 2, Throw]
     \<and> parent st 2 = Some 0
     \<and> (\<exists>st'. emit 2 0 st = Raised st' \<and> trace st' = [3, 2]
           \<and> sig_inv st' 0 [3, 1] {2} (\<lambda>c. []) {}))"
proof (rule conjI)
  have h: "sig_inv sig0 0 [] {} (\<lambda>c. []) {}" using sig0_inv by simp
  let ?ks = "[(1, []), (2, [Throw]), (3, [])] :: (nat \<times> action list) list"
  from connect_all_inv[OF h, of ?ks] obtain st where
    c: "connect_all 0 ?ks sig0 = Some st" and
    I0: "sig_inv st 0 (rev (map fst ?ks) @ []) {} (\<lambda>c. if c \<in> fst ` set ?ks then [] else []) {}" and
    f: "\<forall>k\<in>set ?ks. slot st (fst k) = Some (snd k)" "trace st = trace sig0" "wcount st = wcount sig0"
    by auto
  have I: "sig_inv st 0 ([3] @ 2 # [1]) {} (\<lambda>c. []) {}" using I0 by simp
  have s2: "slot st 2 = Some (Throw # [])" and s3: "\<forall>c'\<in>set [3]. slot st c' = Some []"
    using f(1) by auto
  have t: "trace st = []" "wcount st = 0" using f(2,3) by (simp_all add: sig0_def heap0_def)
  have n: "length [3 :: nat] < 2" by simp
  note T = emit_slot_raises[OF I refl s3 n, of "[]", THEN conjunct1, THEN mp, OF s2]
  from T t obtain st' where
    e: "emit 2 0 st = Raised st'" "trace st' = [3, 2]" "sig_inv st' 0 ([3] @ 2 # [1]) {} (\<lambda>c. []) {}"
      "wcount st' = 2"
    by auto
  show "\<exists>st. connect_all 0 [(1, []), (2, [Throw]), (3, [])] sig0 = Some st
     \<and> sig_inv st 0 ([3] @ 2 # [1]) {} (\<lambda>c. []) {} \<and> slot st 2 = Some [Throw]
     \<and> (\<exists>st'. emit 2 0 st = Raised st' \<and> trace st' = [3, 2]
           \<and> sig_inv st' 0 [3, 2, 1] {} (\<lambda>c. []) {} \<and> wcount st' = 2)"
    using c I s2 e by auto
next
  have h: "sig_inv sig0 0 [] {} (\<lambda>c. []) {}" using sig0_inv by simp
  let ?ks = "[(1, []), (2, [Disconnect 2, Throw]), (3, [])] :: (nat \<times> action list) list"
  from connect_all_inv[OF h, of ?ks] obtain st where
    c: "connect_all 0 ?ks sig0 = Some st" and
    I0: "sig_inv st 0 (rev (map fst ?ks) @ []) {} (\<lambda>c. if c \<in> fst ` set ?ks then [] else []) {}" and
    f: "\<forall>k\<in>set ?ks. slot st (fst k) = Some (snd k)" "trace st = trace sig0"
      "\<forall>k\<in>set ?ks. parent st (fst k) = Some 0"
    by auto
  have I: "sig_inv st 0 ([3] @ 2 # [1]) {} (\<lambda>c. []) {}" using I0 by simp
  have s2: "slot st 2 = Some (Disconnect 2 # Throw # [])" and s3: "\<forall>c'\<in>set [3]. slot st c' = Some []"
    and p2: "parent st 2 = Some 0"
    using f(1,3) by auto
  have t: "trace st = []" using f(2) by (simp add: sig0_def heap0_def)
  have n: "length [3 :: nat] < 2" by simp
  have w: "disc_W 2 [1] (\<lambda>c. []) = (\<lambda>c. [])" by (auto simp: disc_W_def fun_eq_iff)
  have u: "disc_U 2 [1] (\<lambda>c. []) {} = {}" by (simp add: disc_U_def)
  note T = emit_slot_raises[OF I refl s3 n, of "[]", THEN conjunct2, THEN conjunct1, THEN mp,
      OF conjI[OF s2 p2], unfolded w u]
  from T t obtain st' where
    e: "emit 2 0 st = Raised st'" "trace st' = [3, 2]" "sig_inv st' 0 ([3] @ [1]) (insert 2 {}) (\<lambda>c. []) {}"
    by auto
  show "\<exists>st. connect_all 0 [(1, []), (2, [Disconnect 2, Throw]), (3, [])] sig0 = Some st
     \<and> sig_inv st 0 ([3] @ 2 # [1]) {} (\<lambda>c. []) {} \<and> slot st 2 = Some [Disconnect 2, Throw]
     \<and> parent st 2 = Some 0
     \<and> (\<exists>st'. emit 2 0 st = Raised st' \<and> trace st' = [3, 2]
           \<and> sig_inv st' 0 [3, 1] {2} (\<lambda>c. []) {})"
    using c I s2 p2 e by auto
qed

section \<open>Connections added during an emission\<close>



section \<open>Nested emission\<close>

text \<open>
  C5.  The connections are \<open>pre @ c # post\<close>; the slot of \<open>c\<close> emits the same signal
  again, the first time it runs; the other slots do nothing.  Then the outer emission
  returns, given fuel for both passes: it has invoked \<open>pre\<close> and \<open>c\<close>, then the inner
  emission has invoked every connection of the list (\<open>c\<close> too, whose slot does nothing
  the second time), then the outer emission has gone on with \<open>post\<close>.  The state is
  well-formed afterwards with the list and the parked walkers as before, so no walker
  of either emission is left.  While the inner emission visits \<open>c\<close>, two walkers are
  parked on \<open>c\<close>, one of each emission: parking twice on one connection gives two
  distinct walkers, both recording \<open>c\<close>, in a well-formed state.
\<close>

theorem emit_nested:
  assumes "sig_inv st s cs D W U" "cs = pre @ c # post"
    "slot st c = Some [Once g [Emit s]]" "g \<notin> flags st"
    "\<forall>c'\<in>set pre \<union> set post. slot st c' = Some []" "2 * length cs < n"
  shows "(\<exists>st'. emit n s st = Finished st'
            \<and> trace st' = trace st @ pre @ c # cs @ post
            \<and> sig_inv st' s cs D W U)
       \<and> (\<exists>d1 d2 st1 st2. park (Some (Conn c)) st = Some (d1, c, st1)
            \<and> park (Some (Conn c)) st1 = Some (d2, c, st2) \<and> d1 \<noteq> d2
            \<and> sig_inv st2 s cs D (W(c := d2 # d1 # W c)) U
            \<and> held st2 d1 = Some (Conn c) \<and> held st2 d2 = Some (Conn c))"
proof
  have cs0: "cs = [] @ pre @ c # post" using assms(2) by simp
  have o: "\<forall>c'\<in>set [] \<union> set pre \<union> set post. slot st c' = Some []" using assms(5) by simp
  have len: "Suc (length pre + length cs) < n" using assms(2,6) by simp
  from loop_nested[OF assms(1) cs0 assms(3,4) o len] obtain st' where
    l: "emit_loop n s (Some (hd (map Conn (pre @ c # post) @ [SigRoot s]))) st = Finished st'"
      "trace st' = trace st @ pre @ c # cs @ post" "sig_inv st' s cs D W U"
    by blast
  have "hd (map Conn (pre @ c # post) @ [SigRoot s]) = Conn (hd cs)" using assms(2) by (cases pre) auto
  then have "emit n s st = Finished st'"
    using l(1) assms(2) by (subst emit_begin[OF assms(1)]) auto
  then show "\<exists>st'. emit n s st = Finished st'
            \<and> trace st' = trace st @ pre @ c # cs @ post
            \<and> sig_inv st' s cs D W U"
    using l(2,3) by blast
next
  have "c \<in> set cs" using assms(2) by simp
  from park_twice[OF assms(1) this]
  show "\<exists>d1 d2 st1 st2. park (Some (Conn c)) st = Some (d1, c, st1)
            \<and> park (Some (Conn c)) st1 = Some (d2, c, st2) \<and> d1 \<noteq> d2
            \<and> sig_inv st2 s cs D (W(c := d2 # d1 # W c)) U
            \<and> held st2 d1 = Some (Conn c) \<and> held st2 d2 = Some (Conn c)" .
qed

theorem emit_nested_witness:
  "\<exists>st. connect_all 0 [(1, []), (2, [Once 0 [Emit 0]]), (3, [])] sig0 = Some st
     \<and> sig_inv st 0 ([3] @ 2 # [1]) {} (\<lambda>c. []) {}
     \<and> slot st 2 = Some [Once 0 [Emit 0]] \<and> 0 \<notin> flags st
     \<and> (\<exists>st'. emit 7 0 st = Finished st' \<and> trace st' = [3, 2, 3, 2, 1, 1]
           \<and> sig_inv st' 0 [3, 2, 1] {} (\<lambda>c. []) {})"
proof -
  have h: "sig_inv sig0 0 [] {} (\<lambda>c. []) {}" using sig0_inv by simp
  let ?ks = "[(1, []), (2, [Once 0 [Emit 0]]), (3, [])] :: (nat \<times> action list) list"
  from connect_all_inv[OF h, of ?ks] obtain st where
    c: "connect_all 0 ?ks sig0 = Some st" and
    I0: "sig_inv st 0 (rev (map fst ?ks) @ []) {} (\<lambda>c. if c \<in> fst ` set ?ks then [] else []) {}" and
    f: "\<forall>k\<in>set ?ks. slot st (fst k) = Some (snd k)" "trace st = trace sig0" "flags st = flags sig0"
    by auto
  have I: "sig_inv st 0 ([3] @ 2 # [1]) {} (\<lambda>c. []) {}" using I0 by simp
  have s2: "slot st 2 = Some [Once 0 [Emit 0]]" and s13: "\<forall>c'\<in>set [3] \<union> set [1]. slot st c' = Some []"
    using f(1) by auto
  have t: "trace st = []" and fl: "0 \<notin> flags st" using f(2,3) by (simp_all add: sig0_def heap0_def)
  have n: "2 * length ([3] @ 2 # [1 :: nat]) < 7" by simp
  from emit_nested[OF I refl s2 fl s13 n] t obtain st' where
    "emit 7 0 st = Finished st'" "trace st' = [3, 2, 3, 2, 1, 1]"
    "sig_inv st' 0 ([3] @ 2 # [1]) {} (\<lambda>c. []) {}"
    by auto
  then show ?thesis using c I s2 fl by auto
qed

section \<open>Moving a connection\<close>



section \<open>Destroying a connection, destroying the signal\<close>

text \<open>
  What holds when every connection of the signal \<open>s\<close> has the parent that \<open>connect\<close>
  gave it.

  A linked connection \<open>X\<close> is destroyed (walkers may be parked on it).  The destructor
  returns; the storage of \<open>X\<close> and of its walker list is gone; the signal is
  well-formed with \<open>X\<close> taken out of the list, and the walkers of \<open>X\<close> are parked on
  its successor or, when it was last, unparked with the end of the list as their
  position; no link and no walker position refers to the storage of \<open>X\<close>.  Afterwards
  \<open>disconnect\<close> and the destructor of every other connection return and leave no
  dangling link, and an emission over slots that do nothing returns, having invoked
  the remaining connections in order.

  The signal is destroyed while no emission is in progress.  The destructor returns;
  every connection is left alive with null links and an empty walker list.  Afterwards
  \<open>disconnect\<close> of any of them returns and changes nothing, and its destructor
  returns and leaves the other connections as they were.  Each connection still holds
  the address of the signal in \<open>parent\<close>: \<open>disconnect\<close> forms the address of the
  list's end from it for a comparison and reads nothing through it.
\<close>

theorem destroy_with_parent:
  assumes "sig_inv st s cs D W U" "\<forall>c\<in>set cs \<union> D. parent st c = Some s" "X \<in> set cs"
  shows "(\<exists>st'. destroy_connection X st = Some st'
            \<and> sig_inv st' s (remove1 X cs) D (disc_W X (after X cs) W) (disc_U X (after X cs) W U)
            \<and> Conn X \<notin> live (cl st') \<and> ConnRoot X \<notin> live (wl st') \<and> no_dangling st'
            \<and> (\<forall>Y\<in>set cs \<union> D - {X}.
                  (\<exists>st''. disconnect Y st' = Some st'' \<and> no_dangling st'') \<and>
                  (\<exists>st''. destroy_connection Y st' = Some st'' \<and> no_dangling st''))
            \<and> ((\<forall>c\<in>set cs - {X}. slot st c = Some []) \<and> length cs \<le> n
                 \<longrightarrow> (\<exists>st''. emit n s st' = Finished st'' \<and> trace st'' = trace st' @ remove1 X cs
                         \<and> no_dangling st'')))
       \<and> (W = (\<lambda>c. []) \<and> U = {}
            \<longrightarrow> (\<exists>st'. destroy_signal s st = Some st' \<and> SigRoot s \<notin> live (cl st')
                    \<and> orphaned st' (set cs \<union> D) \<and> no_dangling st'
                    \<and> (\<forall>c\<in>set cs \<union> D. disconnect c st' = Some st'
                          \<and> (\<exists>st''. destroy_connection c st' = Some st''
                                \<and> orphaned st'' (set cs \<union> D - {c}) \<and> no_dangling st''))))"
proof (rule conjI)
  note I = assms(1)
  have X: "X \<in> set cs \<union> D" and pX: "parent st X = Some s" using assms(2,3) by auto
  have XD: "X \<notin> D" using I assms(3) by (auto simp: sig_inv_def)
  have dist: "distinct cs" by (rule inv_distinct[OF I])
  from destroy_connection_inv[OF I X pX] obtain st' where
    d: "destroy_connection X st = Some st'" and
    I': "sig_inv st' s (remove1 X cs) (D - {X}) (disc_W X (after X cs) W) (disc_U X (after X cs) W U)" and
    u: "same_user st st'" and dead: "Conn X \<notin> live (cl st')" "ConnRoot X \<notin> live (wl st')"
    by blast
  have DX: "D - {X} = D" using XD by auto
  note I'' = I'[unfolded DX]
  have nd: "no_dangling st'" by (rule inv_no_dangling[OF I''])
  have rest: "set (remove1 X cs) = set cs - {X}" using dist by simp
  have others: "(\<exists>st''. disconnect Y st' = Some st'' \<and> no_dangling st'') \<and>
                (\<exists>st''. destroy_connection Y st' = Some st'' \<and> no_dangling st'')"
    if Y: "Y \<in> set cs \<union> D - {X}" for Y
  proof -
    have Y': "Y \<in> set (remove1 X cs) \<union> D" using Y rest by auto
    have pY: "parent st' Y = Some s" using Y assms(2) u by (auto simp: same_user_def)
    from disconnect_any[OF I'' Y' pY] have a: "\<exists>st''. disconnect Y st' = Some st'' \<and> no_dangling st''"
      using inv_no_dangling by blast
    from destroy_connection_inv[OF I'' Y' pY] have b: "\<exists>st''. destroy_connection Y st' = Some st'' \<and> no_dangling st''"
      using inv_no_dangling by blast
    show ?thesis using a b by simp
  qed
  have em: "\<exists>st''. emit n s st' = Finished st'' \<and> trace st'' = trace st' @ remove1 X cs \<and> no_dangling st''"
    if h: "(\<forall>c\<in>set cs - {X}. slot st c = Some []) \<and> length cs \<le> n"
  proof -
    have sl: "\<forall>c\<in>set (remove1 X cs). slot st' c = Some []" using h rest u by (simp add: same_user_def)
    have "length (remove1 X cs) < length cs" using assms(3) by (simp add: length_remove1) (cases cs; simp)
    then have len: "length (remove1 X cs) < n" using h by simp
    from emit_noop[OF I'' sl len] show ?thesis using inv_no_dangling by blast
  qed
  show "\<exists>st'. destroy_connection X st = Some st'
            \<and> sig_inv st' s (remove1 X cs) D (disc_W X (after X cs) W) (disc_U X (after X cs) W U)
            \<and> Conn X \<notin> live (cl st') \<and> ConnRoot X \<notin> live (wl st') \<and> no_dangling st'
            \<and> (\<forall>Y\<in>set cs \<union> D - {X}.
                  (\<exists>st''. disconnect Y st' = Some st'' \<and> no_dangling st'') \<and>
                  (\<exists>st''. destroy_connection Y st' = Some st'' \<and> no_dangling st''))
            \<and> ((\<forall>c\<in>set cs - {X}. slot st c = Some []) \<and> length cs \<le> n
                 \<longrightarrow> (\<exists>st''. emit n s st' = Finished st'' \<and> trace st'' = trace st' @ remove1 X cs
                         \<and> no_dangling st''))"
    apply (rule exI[of _ st'])
    using d I'' dead nd others em by blast
next
  show "W = (\<lambda>c. []) \<and> U = {}
            \<longrightarrow> (\<exists>st'. destroy_signal s st = Some st' \<and> SigRoot s \<notin> live (cl st')
                    \<and> orphaned st' (set cs \<union> D) \<and> no_dangling st'
                    \<and> (\<forall>c\<in>set cs \<union> D. disconnect c st' = Some st'
                          \<and> (\<exists>st''. destroy_connection c st' = Some st''
                                \<and> orphaned st'' (set cs \<union> D - {c}) \<and> no_dangling st'')))"
  proof
    assume q: "W = (\<lambda>c. []) \<and> U = {}"
    then have I: "sig_inv st s cs D (\<lambda>c. []) {}" using assms(1) by simp
    have par: "\<forall>c\<in>set cs \<union> D. parent st c \<noteq> None" using assms(2) by auto
    from destroy_signal_orphans[OF I par] obtain st' where
      d: "destroy_signal s st = Some st'" and O: "orphaned st' (set cs \<union> D)"
      and dead: "SigRoot s \<notin> live (cl st')"
      by blast
    have each: "disconnect c st' = Some st'
                \<and> (\<exists>st''. destroy_connection c st' = Some st''
                      \<and> orphaned st'' (set cs \<union> D - {c}) \<and> no_dangling st'')"
      if c: "c \<in> set cs \<union> D" for c
      using orphaned_disconnect[OF O c] orphaned_destroy[OF O c] orphaned_no_dangling by blast
    show "\<exists>st'. destroy_signal s st = Some st' \<and> SigRoot s \<notin> live (cl st')
                    \<and> orphaned st' (set cs \<union> D) \<and> no_dangling st'
                    \<and> (\<forall>c\<in>set cs \<union> D. disconnect c st' = Some st'
                          \<and> (\<exists>st''. destroy_connection c st' = Some st''
                                \<and> orphaned st'' (set cs \<union> D - {c}) \<and> no_dangling st''))"
      apply (rule exI[of _ st'])
      using d O dead orphaned_no_dangling[OF O] each by blast
  qed
qed

theorem destroy_with_parent_example:
  "\<exists>st. connect_all 0 [(1, []), (2, []), (3, [])] sig0 = Some st
     \<and> sig_inv st 0 [3, 2, 1] {} (\<lambda>c. []) {}
     \<and> parent st 1 = Some 0 \<and> parent st 2 = Some 0 \<and> parent st 3 = Some 0
     \<and> (\<exists>st'. destroy_connection 2 st = Some st' \<and> sig_inv st' 0 [3, 1] {} (\<lambda>c. []) {}
           \<and> Conn 2 \<notin> live (cl st') \<and> no_dangling st'
           \<and> (\<exists>st''. disconnect 1 st' = Some st'' \<and> no_dangling st'')
           \<and> (\<exists>st''. destroy_connection 3 st' = Some st'' \<and> no_dangling st'')
           \<and> (\<exists>st''. emit 3 0 st' = Finished st'' \<and> trace st'' = [3, 1]))
     \<and> (\<exists>st'. destroy_signal 0 st = Some st' \<and> SigRoot 0 \<notin> live (cl st')
           \<and> orphaned st' {1, 2, 3} \<and> no_dangling st'
           \<and> disconnect 2 st' = Some st'
           \<and> (\<exists>st''. destroy_connection 2 st' = Some st'' \<and> orphaned st'' {1, 3}))"
proof -
  have h: "sig_inv sig0 0 [] {} (\<lambda>c. []) {}" using sig0_inv by simp
  let ?ks = "[(1, []), (2, []), (3, [])] :: (nat \<times> action list) list"
  from connect_all_inv[OF h, of ?ks] obtain st where
    c: "connect_all 0 ?ks sig0 = Some st" and
    I0: "sig_inv st 0 (rev (map fst ?ks) @ []) {} (\<lambda>c. if c \<in> fst ` set ?ks then [] else []) {}" and
    f: "\<forall>k\<in>set ?ks. slot st (fst k) = Some (snd k)" "trace st = trace sig0"
      "\<forall>k\<in>set ?ks. parent st (fst k) = Some 0"
    by auto
  have I: "sig_inv st 0 [3, 2, 1] {} (\<lambda>c. []) {}" using I0 by simp
  have p: "\<forall>c\<in>set [3, 2, 1] \<union> {}. parent st c = Some 0" using f(3) by simp
  have p': "parent st 1 = Some 0" "parent st 2 = Some 0" "parent st 3 = Some 0" using f(3) by auto
  have sl: "\<forall>c\<in>set [3, 2, 1] - {2}. slot st c = Some []" using f(1) by auto
  have t: "trace st = []" using f(2) by (simp add: sig0_def heap0_def)
  have k: "(2 :: nat) \<in> set [3, 2, 1]" by simp
  have a: "after 2 [3, 2, 1 :: nat] = [1]" by (simp add: after_def)
  have w: "disc_W 2 [1] (\<lambda>c. []) = (\<lambda>c. [])" by (auto simp: disc_W_def fun_eq_iff)
  have u: "disc_U 2 [1] (\<lambda>c. []) {} = {}" by (simp add: disc_U_def)
  have s: "set [3, 2, 1 :: nat] \<union> {} = {1, 2, 3}" "{1, 2, 3} - {2 :: nat} = {1, 3}" by auto
  note T = destroy_with_parent[OF I p k, of 3, unfolded a w u]
  from T[THEN conjunct1] obtain st' where
    A0: "destroy_connection 2 st = Some st' \<and> sig_inv st' 0 (remove1 2 [3, 2, 1]) {} (\<lambda>c. []) {}
      \<and> Conn 2 \<notin> live (cl st') \<and> ConnRoot 2 \<notin> live (wl st') \<and> no_dangling st'
      \<and> (\<forall>Y\<in>set [3, 2, 1] \<union> {} - {2}.
                  (\<exists>st''. disconnect Y st' = Some st'' \<and> no_dangling st'') \<and>
                  (\<exists>st''. destroy_connection Y st' = Some st'' \<and> no_dangling st''))
      \<and> ((\<forall>c\<in>set [3, 2, 1] - {2}. slot st c = Some []) \<and> length [3, 2, 1 :: nat] \<le> 3
                 \<longrightarrow> (\<exists>st''. emit 3 0 st' = Finished st'' \<and> trace st'' = trace st' @ remove1 2 [3, 2, 1]
                         \<and> no_dangling st''))" ..
  note A = A0[THEN conjunct1] A0[THEN conjunct2, THEN conjunct1] A0[THEN conjunct2, THEN conjunct2, THEN conjunct1] A0[THEN conjunct2, THEN conjunct2, THEN conjunct2, THEN conjunct2, THEN conjunct1] A0[THEN conjunct2, THEN conjunct2, THEN conjunct2, THEN conjunct2, THEN conjunct2, THEN conjunct1] A0[THEN conjunct2, THEN conjunct2, THEN conjunct2, THEN conjunct2, THEN conjunct2, THEN conjunct2]
  from destroy_connection_inv[OF I _ p'(2)] A(1) have t': "trace st' = trace st"
    by (auto simp: same_user_def)
  have A2: "sig_inv st' 0 [3, 1] {} (\<lambda>c. []) {}" using A(2) by simp
  have A5: "\<exists>st''. disconnect 1 st' = Some st'' \<and> no_dangling st''"
    "\<exists>st''. destroy_connection 3 st' = Some st'' \<and> no_dangling st''"
    using bspec[OF A(5), of 1] bspec[OF A(5), of 3] by simp_all
  have A6: "\<exists>st''. emit 3 0 st' = Finished st'' \<and> trace st'' = [3, 1]"
    using A(6) sl t t' by auto
  have q: "(\<lambda>c. []) = (\<lambda>c :: nat. [] :: nat list) \<and> {} = ({} :: nat set)" by simp
  from T[THEN conjunct2, THEN mp, OF q] obtain st2 where
    B0: "destroy_signal 0 st = Some st2 \<and> SigRoot 0 \<notin> live (cl st2)
      \<and> orphaned st2 (set [3, 2, 1] \<union> {}) \<and> no_dangling st2
      \<and> (\<forall>c\<in>set [3, 2, 1] \<union> {}. disconnect c st2 = Some st2
                          \<and> (\<exists>st''. destroy_connection c st2 = Some st''
                                \<and> orphaned st'' (set [3, 2, 1] \<union> {} - {c}) \<and> no_dangling st''))" ..
  note B = B0[THEN conjunct1] B0[THEN conjunct2, THEN conjunct1] B0[THEN conjunct2, THEN conjunct2, THEN conjunct1] B0[THEN conjunct2, THEN conjunct2, THEN conjunct2, THEN conjunct1] B0[THEN conjunct2, THEN conjunct2, THEN conjunct2, THEN conjunct2]
  have B3: "orphaned st2 {1, 2, 3}" using B(3) s by simp
  from B(5) have B5a: "disconnect 2 st2 = Some st2
                          \<and> (\<exists>st''. destroy_connection 2 st2 = Some st''
                                \<and> orphaned st'' (set [3, 2, 1] \<union> {} - {2}) \<and> no_dangling st'')"
    by (rule bspec) simp
  have s2: "set [3, 2, 1 :: nat] \<union> {} - {2} = {1, 3}" by auto
  have B5: "disconnect 2 st2 = Some st2" "\<exists>st''. destroy_connection 2 st2 = Some st'' \<and> orphaned st'' {1, 3}"
    using B5a unfolding s2 by blast+
  have P1: "\<exists>st'. destroy_connection 2 st = Some st' \<and> sig_inv st' 0 [3, 1] {} (\<lambda>c. []) {}
           \<and> Conn 2 \<notin> live (cl st') \<and> no_dangling st'
           \<and> (\<exists>st''. disconnect 1 st' = Some st'' \<and> no_dangling st'')
           \<and> (\<exists>st''. destroy_connection 3 st' = Some st'' \<and> no_dangling st'')
           \<and> (\<exists>st''. emit 3 0 st' = Finished st'' \<and> trace st'' = [3, 1])"
    by (rule exI[of _ st']) (intro conjI A(1) A2 A(3) A(4) A5 A6)
  have P2: "\<exists>st'. destroy_signal 0 st = Some st' \<and> SigRoot 0 \<notin> live (cl st')
           \<and> orphaned st' {1, 2, 3} \<and> no_dangling st'
           \<and> disconnect 2 st' = Some st'
           \<and> (\<exists>st''. destroy_connection 2 st' = Some st'' \<and> orphaned st'' {1, 3})"
    by (rule exI[of _ st2]) (intro conjI B(1) B(2) B3 B(4) B5)
  show ?thesis
    by (rule exI[of _ st]) (intro conjI c I p' P1 P2)
qed

text \<open>
  C7.  Destroying a connection that the list links is not well-defined when the
  connection has been moved.  The constructor used by \<open>connect\<close> sets \<open>parent\<close>; the
  move constructor, move assignment and \<open>movelinks2empty\<close> never do.  Connection 1 is
  connected to signal 0 and moved to storage 2: the list links 2, whose \<open>parent\<close> is
  indeterminate.  \<open>disconnect\<close> of 2, and so its destructor, reads \<open>parent\<close> for the
  comparison with the end of the list: there is no result.  Without the move the
  destructor of 1 returns and leaves the list empty.  And when the signal is destroyed
  first, connection 1 is left unlinked but keeps the address of the dead signal in
  \<open>parent\<close>.
\<close>

theorem destroy_after_move_faults:
  "(case connect 0 1 [] sig0 of
      None \<Rightarrow> False
    | Some st1 \<Rightarrow>
        parent st1 1 = Some 0 \<and>
        (case destroy_connection 1 st1 of
           None \<Rightarrow> False
         | Some st \<Rightarrow> nxt (cl st) (SigRoot 0) = Some (SigRoot 0)) \<and>
        (case move_construct 2 1 st1 of
           None \<Rightarrow> False
         | Some st2 \<Rightarrow>
             nxt (cl st2) (SigRoot 0) = Some (Conn 2) \<and> nxt (cl st2) (Conn 2) = Some (SigRoot 0) \<and>
             parent st2 2 = None \<and>
             (case disconnect 2 st2 of None \<Rightarrow> True | Some st \<Rightarrow> False) \<and>
             (case destroy_connection 2 st2 of None \<Rightarrow> True | Some st \<Rightarrow> False)) \<and>
        (case destroy_signal 0 st1 of
           None \<Rightarrow> False
         | Some st3 \<Rightarrow>
             SigRoot 0 \<notin> live (cl st3) \<and> Conn 1 \<in> live (cl st3) \<and> parent st3 1 = Some 0 \<and>
             nxt (cl st3) (Conn 1) = None \<and> prv (cl st3) (Conn 1) = None))"
  by code_simp

end
